theory Spec2Isabelle
  imports Main
begin

section \<open>Values, errors and the store\<close>

text \<open>
  The module \<^verbatim>\<open>05-objects-tasks.js\<close> exports a constructor \<^verbatim>\<open>Rectangle\<close>, the two
  JSON helpers \<^verbatim>\<open>getJSON\<close> and \<^verbatim>\<open>fromJSON\<close>, and the object \<^verbatim>\<open>cssSelectorBuilder\<close>,
  whose entry points create instances of the class \<^verbatim>\<open>Select\<close>.

  Objects are mutable and are passed by reference, so the instances of \<^verbatim>\<open>Select\<close> live in
  a store and are named by their address; \<^verbatim>\<open>cssSelectorBuilder\<close> is one object, created
  once when the module is loaded, and its only field \<^verbatim>\<open>selector\<close> is a component of the
  store. A \<^verbatim>\<open>throw new Error(msg)\<close> is the result \<open>Inl (Error msg)\<close>; calling a method on a
  value that has none is the result \<open>Inl TypeError\<close>.
\<close>

type_synonym addr = nat

datatype error = Error string | TypeError | SyntaxError

datatype jsval = Undefined | Str string | Inst addr | Builder

definition once_msg :: string where
  "once_msg = ''Element, id and pseudo-element should not occur more then one time inside the selector''"

definition order_msg :: string where
  "order_msg = ''Selector parts should be arranged in the following order: element, id, class, attribute, pseudo-class, pseudo-element''"

text \<open>
  The fields of a \<^verbatim>\<open>Select\<close> instance. The field \<^verbatim>\<open>selector\<close> does not exist until the
  method \<^verbatim>\<open>combine\<close> of the instance assigns it: \<open>None\<close> is JavaScript's \<^verbatim>\<open>undefined\<close>.
\<close>

record Select =
  element_prop :: string
  id_prop :: string
  class_prop :: "string list"
  attr_prop :: "string list"
  pseudoClass_prop :: "string list"
  pseudoElement_prop :: string
  selector :: "string option"

record store =
  objs :: "Select list"
  builder_selector :: "string option"

definition empty_store :: store where
  "empty_store = \<lparr>objs = [], builder_selector = None\<rparr>"

section \<open>The class Select\<close>

text \<open>
  The constructor gives every field its empty value and then files its argument under
  the kind that the first characters of the argument show; \<^verbatim>\<open>element.slice(0, n)\<close> is
  \<open>take n element\<close>. The test for \<^verbatim>\<open>'::'\<close> stands before the test for \<^verbatim>\<open>':'\<close>.
\<close>

definition Select_init :: Select where
  "Select_init = \<lparr>element_prop = [], id_prop = [], class_prop = [], attr_prop = [],
     pseudoClass_prop = [], pseudoElement_prop = [], selector = None\<rparr>"

definition Select_constructor :: "string \<Rightarrow> Select" where
  "Select_constructor element =
     (if take 1 element = ''#'' then Select_init\<lparr>id_prop := element\<rparr>
      else if take 2 element = ''::'' then Select_init\<lparr>pseudoElement_prop := element\<rparr>
      else if take 1 element = ''.'' then Select_init\<lparr>class_prop := [] @ [element]\<rparr>
      else if take 1 element = ''['' then Select_init\<lparr>attr_prop := [] @ [element]\<rparr>
      else if take 1 element = '':'' then Select_init\<lparr>pseudoClass_prop := [] @ [element]\<rparr>
      else Select_init\<lparr>element_prop := element\<rparr>)"

text \<open>
  \<^verbatim>\<open>stringify\<close> of an instance: \<^verbatim>\<open>s.concat(...xs)\<close> appends every string of the array
  \<open>xs\<close> to \<open>s\<close>. The field \<^verbatim>\<open>selector\<close> is not read.
\<close>

definition Select_stringify :: "Select \<Rightarrow> string" where
  "Select_stringify this =
     element_prop this @ id_prop this @ concat (class_prop this) @ concat (attr_prop this)
       @ concat (pseudoClass_prop this) @ pseudoElement_prop this"

text \<open>
  What a method hands back: \<open>This\<close> for \<^verbatim>\<open>return this\<close>, \<open>Undef\<close> when the body ends
  without a \<^verbatim>\<open>return\<close>. A method maps the fields of its receiver to an error or to the
  returned value and the updated fields. A non-empty string is truthy, the empty one is
  not.
\<close>

datatype ret = This | Undef

text \<open>\<^verbatim>\<open>element()\<close> is declared without a parameter; an argument passed to it is dropped.\<close>

definition Select_element :: "Select \<Rightarrow> error + ret \<times> Select" where
  "Select_element this =
     (if element_prop this \<noteq> [] then Inl (Error once_msg)
      else if id_prop this \<noteq> [] \<or> length (class_prop this) > 0 \<or> length (attr_prop this) > 0
              \<or> length (pseudoClass_prop this) > 0 \<or> pseudoElement_prop this \<noteq> []
        then Inl (Error order_msg)
      else Inr (Undef, this))"

definition Select_id :: "string \<Rightarrow> Select \<Rightarrow> error + ret \<times> Select" where
  "Select_id v this =
     (if id_prop this \<noteq> [] then Inl (Error once_msg)
      else if length (class_prop this) > 0 \<or> length (attr_prop this) > 0
              \<or> length (pseudoClass_prop this) > 0 \<or> pseudoElement_prop this \<noteq> []
        then Inl (Error order_msg)
      else Inr (This, this\<lparr>id_prop := ''#'' @ v\<rparr>))"

definition Select_class :: "string \<Rightarrow> Select \<Rightarrow> error + ret \<times> Select" where
  "Select_class v this =
     (if length (attr_prop this) > 0
           \<or> length (pseudoClass_prop this) > 0 \<or> pseudoElement_prop this \<noteq> []
        then Inl (Error order_msg)
      else Inr (This, this\<lparr>class_prop := class_prop this @ [''.'' @ v]\<rparr>))"

definition Select_attr :: "string \<Rightarrow> Select \<Rightarrow> error + ret \<times> Select" where
  "Select_attr v this =
     (if length (pseudoClass_prop this) > 0 \<or> pseudoElement_prop this \<noteq> []
        then Inl (Error order_msg)
      else Inr (This, this\<lparr>attr_prop := attr_prop this @ [''['' @ v @ '']'']\<rparr>))"

definition Select_pseudoClass :: "string \<Rightarrow> Select \<Rightarrow> error + ret \<times> Select" where
  "Select_pseudoClass v this =
     (if pseudoElement_prop this \<noteq> [] then Inl (Error order_msg)
      else Inr (This, this\<lparr>pseudoClass_prop := pseudoClass_prop this @ ['':'' @ v]\<rparr>))"

definition Select_pseudoElement :: "string \<Rightarrow> Select \<Rightarrow> error + ret \<times> Select" where
  "Select_pseudoElement v this =
     (if pseudoElement_prop this \<noteq> [] then Inl (Error once_msg)
      else Inr (This, this\<lparr>pseudoElement_prop := ''::'' @ v\<rparr>))"

text \<open>
  A method call \<^verbatim>\<open>x.m(...)\<close>: \<open>x\<close> has to be an instance in the store; the fields are
  written back under the same address, and \<^verbatim>\<open>this\<close> is that address.
\<close>

definition invoke :: "(Select \<Rightarrow> error + ret \<times> Select) \<Rightarrow> jsval \<Rightarrow> store \<Rightarrow> error + jsval \<times> store" where
  "invoke m x h =
     (case x of
        Inst a \<Rightarrow>
          (if a < length (objs h) then
             (case m (objs h ! a) of
                Inl e \<Rightarrow> Inl e
              | Inr (r, this') \<Rightarrow>
                  Inr (case r of This \<Rightarrow> Inst a | Undef \<Rightarrow> Undefined,
                       h\<lparr>objs := (objs h)[a := this']\<rparr>))
           else Inl TypeError)
      | _ \<Rightarrow> Inl TypeError)"

section \<open>The facade cssSelectorBuilder\<close>

text \<open>\<^verbatim>\<open>new Select(element)\<close>: a fresh address, one past the instances there are.\<close>

definition new_Select :: "string \<Rightarrow> store \<Rightarrow> jsval \<times> store" where
  "new_Select element h = (Inst (length (objs h)), h\<lparr>objs := objs h @ [Select_constructor element]\<rparr>)"

definition builder_element :: "string \<Rightarrow> store \<Rightarrow> jsval \<times> store" where
  "builder_element v h = new_Select v h"

definition builder_id :: "string \<Rightarrow> store \<Rightarrow> jsval \<times> store" where
  "builder_id v h = new_Select (''#'' @ v) h"

definition builder_class :: "string \<Rightarrow> store \<Rightarrow> jsval \<times> store" where
  "builder_class v h = new_Select (''.'' @ v) h"

definition builder_attr :: "string \<Rightarrow> store \<Rightarrow> jsval \<times> store" where
  "builder_attr v h = new_Select (''['' @ v @ '']'') h"

definition builder_pseudoClass :: "string \<Rightarrow> store \<Rightarrow> jsval \<times> store" where
  "builder_pseudoClass v h = new_Select ('':'' @ v) h"

definition builder_pseudoElement :: "string \<Rightarrow> store \<Rightarrow> jsval \<times> store" where
  "builder_pseudoElement v h = new_Select (''::'' @ v) h"

text \<open>
  \<^verbatim>\<open>x.stringify()\<close> looks the method up on the receiver: an instance of \<^verbatim>\<open>Select\<close> runs
  the method of the class, the facade returns its field \<^verbatim>\<open>selector\<close>, which is
  \<^verbatim>\<open>undefined\<close> until \<^verbatim>\<open>combine\<close> has assigned it.
\<close>

fun stringify :: "jsval \<Rightarrow> store \<Rightarrow> error + jsval" where
  "stringify (Inst a) h =
     (if a < length (objs h) then Inr (Str (Select_stringify (objs h ! a))) else Inl TypeError)"
| "stringify Builder h =
     Inr (case builder_selector h of None \<Rightarrow> Undefined | Some s \<Rightarrow> Str s)"
| "stringify _ h = Inl TypeError"

text \<open>What a template literal \<^verbatim>\<open>`${x}`\<close> puts in for a value.\<close>

fun template :: "jsval \<Rightarrow> string" where
  "template (Str s) = s"
| "template Undefined = ''undefined''"
| "template _ = ''[object Object]''"

definition builder_combine :: "jsval \<Rightarrow> string \<Rightarrow> jsval \<Rightarrow> store \<Rightarrow> error + jsval \<times> store" where
  "builder_combine selector1 combinator selector2 h =
     (case stringify selector1 h of
        Inl e \<Rightarrow> Inl e
      | Inr sel1 \<Rightarrow>
          (case stringify selector2 h of
             Inl e \<Rightarrow> Inl e
           | Inr sel2 \<Rightarrow>
               Inr (Builder,
                    h\<lparr>builder_selector :=
                        Some (template sel1 @ '' '' @ combinator @ '' '' @ template sel2)\<rparr>)))"

text \<open>
  The method \<^verbatim>\<open>combine\<close> of the class \<^verbatim>\<open>Select\<close> stores the joined text in the field
  \<^verbatim>\<open>selector\<close> of its receiver, after the text that is already there when that is truthy.
\<close>

definition Select_combine :: "jsval \<Rightarrow> string \<Rightarrow> jsval \<Rightarrow> jsval \<Rightarrow> store \<Rightarrow> error + jsval \<times> store" where
  "Select_combine selector1 combinator selector2 x h =
     (case stringify selector1 h of
        Inl e \<Rightarrow> Inl e
      | Inr sel1 \<Rightarrow>
          (case stringify selector2 h of
             Inl e \<Rightarrow> Inl e
           | Inr sel2 \<Rightarrow>
               invoke (\<lambda>this.
                  let joined = template sel1 @ '' '' @ combinator @ '' '' @ template sel2
                  in Inr (This, this\<lparr>selector :=
                       (case selector this of
                          None \<Rightarrow> Some joined
                        | Some s \<Rightarrow> if s \<noteq> [] then Some (s @ joined) else Some joined)\<rparr>)) x h))"

section \<open>Chained calls\<close>

text \<open>
  An expression \<^verbatim>\<open>builder.k\<^sub>0(v\<^sub>0).k\<^sub>1(v\<^sub>1)...k\<^sub>n(v\<^sub>n)\<close> is a first call on the facade, which
  creates the instance, and then calls of instance methods, each on the value the call
  before it returned. One call is a kind with its argument.
\<close>

datatype fragment =
  Element string | Id string | Class string | Attr string | PseudoClass string | PseudoElement string

fun entry :: "fragment \<Rightarrow> store \<Rightarrow> jsval \<times> store" where
  "entry (Element v) = builder_element v"
| "entry (Id v) = builder_id v"
| "entry (Class v) = builder_class v"
| "entry (Attr v) = builder_attr v"
| "entry (PseudoClass v) = builder_pseudoClass v"
| "entry (PseudoElement v) = builder_pseudoElement v"

fun append_m :: "fragment \<Rightarrow> Select \<Rightarrow> error + ret \<times> Select" where
  "append_m (Element v) = Select_element"
| "append_m (Id v) = Select_id v"
| "append_m (Class v) = Select_class v"
| "append_m (Attr v) = Select_attr v"
| "append_m (PseudoClass v) = Select_pseudoClass v"
| "append_m (PseudoElement v) = Select_pseudoElement v"

fun appends :: "fragment list \<Rightarrow> jsval \<Rightarrow> store \<Rightarrow> error + jsval \<times> store" where
  "appends [] x h = Inr (x, h)"
| "appends (f # fs) x h =
     (case invoke (append_m f) x h of
        Inl e \<Rightarrow> Inl e
      | Inr (y, h') \<Rightarrow> appends fs y h')"

definition chain :: "fragment \<Rightarrow> fragment list \<Rightarrow> store \<Rightarrow> error + jsval \<times> store" where
  "chain f fs h = (case entry f h of (x, h') \<Rightarrow> appends fs x h')"

text \<open>The position of a kind in the order element, id, class, attribute, pseudo-class, pseudo-element.\<close>

fun kind :: "fragment \<Rightarrow> nat" where
  "kind (Element v) = 0"
| "kind (Id v) = 1"
| "kind (Class v) = 2"
| "kind (Attr v) = 3"
| "kind (PseudoClass v) = 4"
| "kind (PseudoElement v) = 5"

section \<open>The selector text as the specification words it\<close>

text \<open>
  The specification describes a selector as a set of fragments: an optional element name,
  an optional id, the classes, the attributes and the pseudo-classes in the order they
  were given, and an optional pseudo-element. Its text is the element name, the id after
  \<^verbatim>\<open>#\<close>, each class after \<^verbatim>\<open>.\<close>, each attribute between \<^verbatim>\<open>[\<close> and \<^verbatim>\<open>]\<close>, each
  pseudo-class after \<^verbatim>\<open>:\<close> and the pseudo-element after \<^verbatim>\<open>::\<close>, with nothing between.
  These definitions follow the specification, not the code.
\<close>

record SelectorFragmentSet =
  fs_element :: "string option"
  fs_id :: "string option"
  fs_classes :: "string list"
  fs_attrs :: "string list"
  fs_pseudoClasses :: "string list"
  fs_pseudoElement :: "string option"

definition spec_empty :: SelectorFragmentSet where
  "spec_empty = \<lparr>fs_element = None, fs_id = None, fs_classes = [], fs_attrs = [],
     fs_pseudoClasses = [], fs_pseudoElement = None\<rparr>"

fun spec_add :: "SelectorFragmentSet \<Rightarrow> fragment \<Rightarrow> SelectorFragmentSet" where
  "spec_add F (Element v) = F\<lparr>fs_element := Some v\<rparr>"
| "spec_add F (Id v) = F\<lparr>fs_id := Some v\<rparr>"
| "spec_add F (Class v) = F\<lparr>fs_classes := fs_classes F @ [v]\<rparr>"
| "spec_add F (Attr v) = F\<lparr>fs_attrs := fs_attrs F @ [v]\<rparr>"
| "spec_add F (PseudoClass v) = F\<lparr>fs_pseudoClasses := fs_pseudoClasses F @ [v]\<rparr>"
| "spec_add F (PseudoElement v) = F\<lparr>fs_pseudoElement := Some v\<rparr>"

definition spec_of :: "fragment list \<Rightarrow> SelectorFragmentSet" where
  "spec_of fs = foldl spec_add spec_empty fs"

definition spec_stringify :: "SelectorFragmentSet \<Rightarrow> string" where
  "spec_stringify F =
     (case fs_element F of None \<Rightarrow> [] | Some e \<Rightarrow> e)
     @ (case fs_id F of None \<Rightarrow> [] | Some i \<Rightarrow> ''#'' @ i)
     @ concat (map (\<lambda>c. ''.'' @ c) (fs_classes F))
     @ concat (map (\<lambda>a. ''['' @ a @ '']'') (fs_attrs F))
     @ concat (map (\<lambda>p. '':'' @ p) (fs_pseudoClasses F))
     @ (case fs_pseudoElement F of None \<Rightarrow> [] | Some p \<Rightarrow> ''::'' @ p)"

section \<open>Rectangle\<close>

text \<open>
  \<^verbatim>\<open>new Rectangle(width, height)\<close> stores its two arguments as they are, whatever they are,
  and the arrow function \<^verbatim>\<open>getArea\<close> reads the two fields of the object when it is
  called. The type of the arguments is left open: \<open>*\<close> is the multiplication of that type.
\<close>

record 'n Rectangle =
  width :: 'n
  height :: 'n

definition new_Rectangle :: "'n \<Rightarrow> 'n \<Rightarrow> 'n Rectangle" where
  "new_Rectangle w h = \<lparr>width = w, height = h\<rparr>"

definition getArea :: "'n::times Rectangle \<Rightarrow> 'n" where
  "getArea this = height this * width this"

section \<open>Reading a chain of calls\<close>

text \<open>
  \<open>then_call r g\<close> is \<^verbatim>\<open>r.k(v)\<close> and \<open>then_stringify r\<close> is \<^verbatim>\<open>r.stringify()\<close> for the
  outcome \<open>r\<close> of the expression before the dot: an error raised there is the outcome of
  the whole expression.
\<close>

definition then_call :: "error + jsval \<times> store \<Rightarrow> fragment \<Rightarrow> error + jsval \<times> store" where
  "then_call r g = (case r of Inl e \<Rightarrow> Inl e | Inr (x, h) \<Rightarrow> invoke (append_m g) x h)"

definition then_stringify :: "error + jsval \<times> store \<Rightarrow> error + jsval" where
  "then_stringify r = (case r of Inl e \<Rightarrow> Inl e | Inr (x, h) \<Rightarrow> stringify x h)"


text \<open>The text that an entry point of the facade passes to the constructor.\<close>

definition entry_text :: "fragment \<Rightarrow> string" where
  "entry_text f =
     (case f of
        Element v \<Rightarrow> v
      | Id v \<Rightarrow> ''#'' @ v
      | Class v \<Rightarrow> ''.'' @ v
      | Attr v \<Rightarrow> ''['' @ v @ '']''
      | PseudoClass v \<Rightarrow> '':'' @ v
      | PseudoElement v \<Rightarrow> ''::'' @ v)"

text \<open>
  An element name that the constructor files as an element and that the methods see as
  set: it is not empty and does not begin with one of the marks the constructor tests.
\<close>

definition plain :: "string \<Rightarrow> bool" where
  "plain v \<longleftrightarrow>
     v \<noteq> [] \<and> take 1 v \<noteq> ''#'' \<and> take 1 v \<noteq> ''.'' \<and> take 1 v \<noteq> ''['' \<and> take 1 v \<noteq> '':''"

text \<open>
  Two invariants of an instance along the calls \<open>T\<close> that built it. The first ties the
  text of the instance to the text the specification gives for \<open>T\<close>; its other conjuncts
  say that the specification has nothing of a kind as long as the fields of that kind
  and of all later kinds are empty. The second says which fields cannot be empty after
  a call of a kind.
\<close>

definition string_inv :: "fragment list \<Rightarrow> Select \<Rightarrow> bool" where
  "string_inv T s \<longleftrightarrow>
     Select_stringify s = spec_stringify (spec_of T)
     \<and> (pseudoElement_prop s = [] \<longrightarrow> fs_pseudoElement (spec_of T) = None)
     \<and> (pseudoClass_prop s = [] \<and> pseudoElement_prop s = [] \<longrightarrow> fs_pseudoClasses (spec_of T) = [])
     \<and> (attr_prop s = [] \<and> pseudoClass_prop s = [] \<and> pseudoElement_prop s = []
          \<longrightarrow> fs_attrs (spec_of T) = [])
     \<and> (class_prop s = [] \<and> attr_prop s = [] \<and> pseudoClass_prop s = [] \<and> pseudoElement_prop s = []
          \<longrightarrow> fs_classes (spec_of T) = [])
     \<and> (id_prop s = [] \<and> class_prop s = [] \<and> attr_prop s = [] \<and> pseudoClass_prop s = []
          \<and> pseudoElement_prop s = [] \<longrightarrow> fs_id (spec_of T) = None)"

definition set_inv :: "fragment list \<Rightarrow> Select \<Rightarrow> bool" where
  "set_inv T s \<longleftrightarrow>
     ((\<exists>v. Element v \<in> set T \<and> plain v) \<longrightarrow> element_prop s \<noteq> [])
     \<and> ((\<exists>v. Id v \<in> set T) \<longrightarrow> id_prop s \<noteq> [])
     \<and> ((\<exists>v. Class v \<in> set T) \<longrightarrow> class_prop s \<noteq> [])
     \<and> ((\<exists>v. Attr v \<in> set T) \<longrightarrow> attr_prop s \<noteq> [])
     \<and> ((\<exists>v. PseudoClass v \<in> set T) \<longrightarrow> pseudoClass_prop s \<noteq> [] \<or> pseudoElement_prop s \<noteq> [])
     \<and> ((\<exists>v. PseudoElement v \<in> set T) \<longrightarrow> pseudoElement_prop s \<noteq> [])"

section \<open>The built-ins behind getJSON and fromJSON\<close>

text \<open>
  \<^verbatim>\<open>getJSON\<close> and \<^verbatim>\<open>fromJSON\<close> call \<^verbatim>\<open>JSON.stringify\<close>, \<^verbatim>\<open>JSON.parse\<close> and
  \<^verbatim>\<open>Object.setPrototypeOf\<close>. These are built-ins of the language, not code of the
  repository; they are written here after their definition in the language standard
  (ECMA-262, with the JSON grammar of ECMA-404), for the values that JSON can express.

  A JavaScript string is a sequence of UTF-16 code units, here natural numbers;
  \<open>units\<close> turns a literal of the theory into such a sequence.
\<close>

type_synonym utext = "nat list"

definition units :: "string \<Rightarrow> utext" where
  "units s = map of_char s"

text \<open>
  The data that JSON expresses. A finite number is kept as the text the runtime prints
  for it (\<^verbatim>\<open>10\<close>, \<^verbatim>\<open>-0.5\<close>, \<^verbatim>\<open>1e+21\<close>), which names the number uniquely; the floating point
  value behind the text is not modelled, and a number read from a text is kept as it is
  written there. An object is the list of its own properties in the order in which the
  runtime enumerates them.
\<close>

datatype json =
  JNull | JBool bool | JNum utext | JStr utext | JArr "json list" | JObj "(utext \<times> json) list"

subsection \<open>JSON.stringify\<close>

text \<open>
  Quoting a string: the two-character escapes for backspace, tab, line feed, form feed,
  carriage return, the quote and the backslash; \<^verbatim>\<open>\uXXXX\<close> with lower-case digits for
  the other code units below 32 and for a surrogate that has no partner; every other
  code unit as it is.
\<close>

definition hex_digit :: "nat \<Rightarrow> nat" where
  "hex_digit n = (if n < 10 then 48 + n else 87 + n)"

definition unicode_escape :: "nat \<Rightarrow> utext" where
  "unicode_escape c =
     [92, 117, hex_digit (c div 4096 mod 16), hex_digit (c div 256 mod 16),
      hex_digit (c div 16 mod 16), hex_digit (c mod 16)]"

definition is_high :: "nat \<Rightarrow> bool" where
  "is_high c \<longleftrightarrow> 55296 \<le> c \<and> c \<le> 56319"

definition is_low :: "nat \<Rightarrow> bool" where
  "is_low c \<longleftrightarrow> 56320 \<le> c \<and> c \<le> 57343"

definition quote_unit :: "nat \<Rightarrow> utext" where
  "quote_unit c =
     (if c = 8 then [92, 98]
      else if c = 9 then [92, 116]
      else if c = 10 then [92, 110]
      else if c = 12 then [92, 102]
      else if c = 13 then [92, 114]
      else if c = 34 then [92, 34]
      else if c = 92 then [92, 92]
      else if c < 32 \<or> is_high c \<or> is_low c then unicode_escape c
      else [c])"

fun quote_units :: "utext \<Rightarrow> utext" where
  "quote_units [] = []"
| "quote_units [c] = quote_unit c"
| "quote_units (c # d # r) =
     (if is_high c \<and> is_low d then c # d # quote_units r
      else quote_unit c @ quote_units (d # r))"

definition quote :: "utext \<Rightarrow> utext" where
  "quote s = 34 # quote_units s @ [34]"

fun commas :: "utext list \<Rightarrow> utext" where
  "commas [] = []"
| "commas [x] = x"
| "commas (x # y # ys) = x @ 44 # commas (y # ys)"

fun JSON_stringify :: "json \<Rightarrow> utext" where
  "JSON_stringify JNull = units ''null''"
| "JSON_stringify (JBool b) = (if b then units ''true'' else units ''false'')"
| "JSON_stringify (JNum t) = t"
| "JSON_stringify (JStr s) = quote s"
| "JSON_stringify (JArr vs) = 91 # commas (map JSON_stringify vs) @ [93]"
| "JSON_stringify (JObj kvs) =
     123 # commas (map (\<lambda>(k, v). quote k @ 58 # JSON_stringify v) kvs) @ [125]"

subsection \<open>JSON.parse\<close>

definition is_ws :: "nat \<Rightarrow> bool" where
  "is_ws c \<longleftrightarrow> c = 32 \<or> c = 9 \<or> c = 10 \<or> c = 13"

definition skip_ws :: "utext \<Rightarrow> utext" where
  "skip_ws s = dropWhile is_ws s"

definition is_digit :: "nat \<Rightarrow> bool" where
  "is_digit c \<longleftrightarrow> 48 \<le> c \<and> c \<le> 57"

definition hex_val :: "nat \<Rightarrow> nat option" where
  "hex_val c =
     (if 48 \<le> c \<and> c \<le> 57 then Some (c - 48)
      else if 65 \<le> c \<and> c \<le> 70 then Some (c - 55)
      else if 97 \<le> c \<and> c \<le> 102 then Some (c - 87)
      else None)"

definition unescape :: "nat \<Rightarrow> nat option" where
  "unescape e =
     (if e = 34 then Some 34
      else if e = 92 then Some 92
      else if e = 47 then Some 47
      else if e = 98 then Some 8
      else if e = 102 then Some 12
      else if e = 110 then Some 10
      else if e = 114 then Some 13
      else if e = 116 then Some 9
      else None)"

text \<open>
  The characters of a string after its opening quote, up to the closing quote: the
  string they denote and the text after the closing quote.
\<close>

fun scan_chars :: "utext \<Rightarrow> (utext \<times> utext) option" where
  "scan_chars [] = None"
| "scan_chars (c # r) =
     (if c = 34 then Some ([], r)
      else if c = 92 then
        (case r of
           [] \<Rightarrow> None
         | e # r1 \<Rightarrow>
             if e = 117 then
               (case r1 of
                  h1 # h2 # h3 # h4 # r2 \<Rightarrow>
                    (case (hex_val h1, hex_val h2, hex_val h3, hex_val h4) of
                       (Some a, Some b, Some c', Some d) \<Rightarrow>
                         map_option (\<lambda>(s, t). ((((a * 16 + b) * 16 + c') * 16 + d) # s, t))
                           (scan_chars r2)
                     | _ \<Rightarrow> None)
                | _ \<Rightarrow> None)
             else
               (case unescape e of
                  None \<Rightarrow> None
                | Some u \<Rightarrow> map_option (\<lambda>(s, t). (u # s, t)) (scan_chars r1)))
      else if c < 32 then None
      else map_option (\<lambda>(s, t). (c # s, t)) (scan_chars r))"

text \<open>
  A number: an optional minus, then \<^verbatim>\<open>0\<close> or a digit from 1 to 9 and more digits, then
  an optional fraction, then an optional exponent. The result is the text of the number
  and the text after it.
\<close>

definition scan_frac :: "utext \<Rightarrow> (utext \<times> utext) option" where
  "scan_frac s =
     (case s of
        [] \<Rightarrow> Some ([], s)
      | c # r \<Rightarrow>
          if c = 46 then
            (if takeWhile is_digit r = [] then None
             else Some (c # takeWhile is_digit r, dropWhile is_digit r))
          else Some ([], s))"

definition scan_exp :: "utext \<Rightarrow> (utext \<times> utext) option" where
  "scan_exp s =
     (case s of
        [] \<Rightarrow> Some ([], s)
      | c # r \<Rightarrow>
          if c = 101 \<or> c = 69 then
            (let (sg, r1) = (case r of
                               [] \<Rightarrow> ([], r)
                             | d # r' \<Rightarrow> if d = 43 \<or> d = 45 then ([d], r') else ([], r))
             in if takeWhile is_digit r1 = [] then None
                else Some (c # sg @ takeWhile is_digit r1, dropWhile is_digit r1))
          else Some ([], s))"

definition scan_int :: "utext \<Rightarrow> (utext \<times> utext) option" where
  "scan_int s =
     (case s of
        [] \<Rightarrow> None
      | c # r \<Rightarrow>
          if c = 48 then Some ([c], r)
          else if is_digit c then Some (c # takeWhile is_digit r, dropWhile is_digit r)
          else None)"

definition scan_number :: "utext \<Rightarrow> (utext \<times> utext) option" where
  "scan_number s =
     (let (sg, s1) = (case s of [] \<Rightarrow> ([], s) | c # r \<Rightarrow> if c = 45 then ([c], r) else ([], s))
      in case scan_int s1 of
           None \<Rightarrow> None
         | Some (ip, s2) \<Rightarrow>
             (case scan_frac s2 of
                None \<Rightarrow> None
              | Some (fp, s3) \<Rightarrow>
                  (case scan_exp s3 of
                     None \<Rightarrow> None
                   | Some (ep, s4) \<Rightarrow> Some (sg @ ip @ fp @ ep, s4))))"

definition scan_word :: "utext \<Rightarrow> utext \<Rightarrow> utext option" where
  "scan_word w s = (if take (length w) s = w then Some (drop (length w) s) else None)"

text \<open>
  A property that is defined twice keeps its place and takes the later value; a new one
  goes to the end. The runtime enumerates the names that are array indices before the
  other names; the parser here keeps the order of the text. In a text printed from an
  object the two orders are the same, and no claim depends on the order.
\<close>

definition obj_put :: "(utext \<times> json) list \<Rightarrow> utext \<times> json \<Rightarrow> (utext \<times> json) list" where
  "obj_put kvs kv =
     (if fst kv \<in> fst ` set kvs then map (\<lambda>p. if fst p = fst kv then kv else p) kvs
      else kvs @ [kv])"

definition obj_of :: "(utext \<times> json) list \<Rightarrow> json" where
  "obj_of kvs = JObj (foldl obj_put [] kvs)"

text \<open>
  The parser of values. It descends into arrays and objects; the first argument bounds
  the calls still allowed and goes down by one at every call, so that the functions are
  defined by recursion on it. \<open>parse_elements\<close> reads the elements of an array from the
  first character of the first element to the closing bracket, \<open>parse_members\<close> reads
  the members of an object from the quote of the first key to the closing brace.
\<close>

fun parse_value :: "nat \<Rightarrow> utext \<Rightarrow> (json \<times> utext) option"
  and parse_elements :: "nat \<Rightarrow> utext \<Rightarrow> (json list \<times> utext) option"
  and parse_members :: "nat \<Rightarrow> utext \<Rightarrow> ((utext \<times> json) list \<times> utext) option"
where
  "parse_value 0 s = None"
| "parse_value (Suc n) s =
     (case s of
        [] \<Rightarrow> None
      | c # r \<Rightarrow>
          if c = 123 then
            (case skip_ws r of
               [] \<Rightarrow> None
             | d # r' \<Rightarrow>
                 if d = 125 then Some (JObj [], r')
                 else map_option (\<lambda>(kvs, t). (obj_of kvs, t)) (parse_members n (d # r')))
          else if c = 91 then
            (case skip_ws r of
               [] \<Rightarrow> None
             | d # r' \<Rightarrow>
                 if d = 93 then Some (JArr [], r')
                 else map_option (\<lambda>(vs, t). (JArr vs, t)) (parse_elements n (d # r')))
          else if c = 34 then map_option (\<lambda>(str, t). (JStr str, t)) (scan_chars r)
          else if c = 116 then map_option (\<lambda>t. (JBool True, t)) (scan_word (units ''true'') s)
          else if c = 102 then map_option (\<lambda>t. (JBool False, t)) (scan_word (units ''false'') s)
          else if c = 110 then map_option (\<lambda>t. (JNull, t)) (scan_word (units ''null'') s)
          else map_option (\<lambda>(num, t). (JNum num, t)) (scan_number s))"
| "parse_elements 0 s = None"
| "parse_elements (Suc n) s =
     (case parse_value n s of
        None \<Rightarrow> None
      | Some (v, t) \<Rightarrow>
          (case skip_ws t of
             [] \<Rightarrow> None
           | d # t' \<Rightarrow>
               if d = 93 then Some ([v], t')
               else if d = 44 then
                 map_option (\<lambda>(vs, u). (v # vs, u)) (parse_elements n (skip_ws t'))
               else None))"
| "parse_members 0 s = None"
| "parse_members (Suc n) s =
     (case s of
        [] \<Rightarrow> None
      | c # r \<Rightarrow>
          if c \<noteq> 34 then None
          else
            (case scan_chars r of
               None \<Rightarrow> None
             | Some (k, t) \<Rightarrow>
                 (case skip_ws t of
                    [] \<Rightarrow> None
                  | d # t1 \<Rightarrow>
                      if d \<noteq> 58 then None
                      else
                        (case parse_value n (skip_ws t1) of
                           None \<Rightarrow> None
                         | Some (v, t2) \<Rightarrow>
                             (case skip_ws t2 of
                                [] \<Rightarrow> None
                              | e # t3 \<Rightarrow>
                                  if e = 125 then Some ([(k, v)], t3)
                                  else if e = 44 then
                                    map_option (\<lambda>(kvs, u). ((k, v) # kvs, u))
                                      (parse_members n (skip_ws t3))
                                  else None)))))"

text \<open>
  \<^verbatim>\<open>JSON.parse(text)\<close>: white space, one value, white space, and nothing else; \<open>None\<close> is
  the \<^verbatim>\<open>SyntaxError\<close> that the built-in throws. A call of the parser consumes at least one
  character before it calls itself, so a bound above the length of the text is never
  reached.
\<close>

definition JSON_parse :: "utext \<Rightarrow> json option" where
  "JSON_parse s =
     (case parse_value (Suc (length s)) (skip_ws s) of
        None \<Rightarrow> None
      | Some (v, t) \<Rightarrow> if skip_ws t = [] then Some v else None)"

subsection \<open>Object.setPrototypeOf\<close>

text \<open>
  The prototype of a value: the one the runtime gave it (\<^verbatim>\<open>Object.prototype\<close> for an
  object, \<^verbatim>\<open>Array.prototype\<close> for an array, the wrapper's for a primitive) or a given
  template object. \<^verbatim>\<open>Object.setPrototypeOf(O, proto)\<close> throws a \<^verbatim>\<open>TypeError\<close> when \<open>O\<close> is
  \<^verbatim>\<open>null\<close>, returns \<open>O\<close> as it is when \<open>O\<close> is not an object, and otherwise sets the
  prototype of \<open>O\<close>, which for a fresh object always succeeds. The template is an object,
  as the documentation of \<^verbatim>\<open>fromJSON\<close> says.
\<close>

datatype 'p prototype = Builtin | Template 'p

fun Object_setPrototypeOf :: "json \<Rightarrow> 'p \<Rightarrow> error + json \<times> 'p prototype" where
  "Object_setPrototypeOf JNull proto = Inl TypeError"
| "Object_setPrototypeOf (JArr vs) proto = Inr (JArr vs, Template proto)"
| "Object_setPrototypeOf (JObj kvs) proto = Inr (JObj kvs, Template proto)"
| "Object_setPrototypeOf v proto = Inr (v, Builtin)"

section \<open>getJSON and fromJSON\<close>

definition getJSON :: "json \<Rightarrow> utext" where
  "getJSON obj = JSON_stringify obj"

text \<open>
  \<^verbatim>\<open>fromJSON\<close> returns the parsed value after the call that sets its prototype; an
  exception of either built-in leaves the function.
\<close>

definition fromJSON :: "'p \<Rightarrow> utext \<Rightarrow> error + json \<times> 'p prototype" where
  "fromJSON proto json =
     (case JSON_parse json of
        None \<Rightarrow> Inl SyntaxError
      | Some res \<Rightarrow>
          (case Object_setPrototypeOf res proto of
             Inl e \<Rightarrow> Inl e
           | Inr res' \<Rightarrow> Inr res'))"

section \<open>Plain data\<close>

text \<open>
  The values for which the round trip is claimed: a number is held as the text of a JSON
  number, and no object has two properties of one name. \<open>follows\<close> holds of what may
  stand after a value inside a printed text: nothing, a comma or a closing bracket or
  brace.
\<close>

definition number_literal :: "utext \<Rightarrow> bool" where
  "number_literal t \<longleftrightarrow> scan_number t = Some (t, [])"

fun plain_data :: "json \<Rightarrow> bool" where
  "plain_data JNull = True"
| "plain_data (JBool b) = True"
| "plain_data (JNum t) = number_literal t"
| "plain_data (JStr s) = True"
| "plain_data (JArr vs) = (\<forall>v \<in> set vs. plain_data v)"
| "plain_data (JObj kvs) = (distinct (map fst kvs) \<and> (\<forall>kv \<in> set kvs. plain_data (snd kv)))"

definition follows :: "utext \<Rightarrow> bool" where
  "follows rest \<longleftrightarrow> (case rest of [] \<Rightarrow> True | c # r \<Rightarrow> c = 44 \<or> c = 93 \<or> c = 125)"

section \<open>Notions for the proofs about the parser\<close>

text \<open>
  \<open>starts_value\<close> holds of the characters a printed value can begin with. \<open>rt v\<close> says
  that the parser reads the printed text of \<open>v\<close> back as \<open>v\<close>, whatever follows it and
  with every bound above the length of the text. \<open>member_text\<close> is the printed text of
  one property. \<open>enough_v\<close>, \<open>enough_e\<close> and \<open>enough_m\<close> say of a bound that what the
  parser reads with it consumes at least one character and is read alike with every
  bound that is at least the number of characters consumed.
\<close>

definition starts_value :: "nat \<Rightarrow> bool" where
  "starts_value c \<longleftrightarrow> c = 123 \<or> c = 91 \<or> c = 34 \<or> c = 116 \<or> c = 102 \<or> c = 110 \<or> c = 45 \<or> is_digit c"

definition rt :: "json \<Rightarrow> bool" where
  "rt v \<longleftrightarrow> (\<forall>n rest. follows rest \<longrightarrow> length (JSON_stringify v) < n \<longrightarrow>
       parse_value n (JSON_stringify v @ rest) = Some (v, rest))"

definition member_text :: "utext \<times> json \<Rightarrow> utext" where
  "member_text kv = quote (fst kv) @ 58 # JSON_stringify (snd kv)"

definition enough_v :: "nat \<Rightarrow> bool" where
  "enough_v n \<longleftrightarrow> (\<forall>s v t. parse_value n s = Some (v, t) \<longrightarrow>
      length t < length s \<and> (\<forall>m. length s \<le> m + length t \<longrightarrow> parse_value m s = Some (v, t)))"

definition enough_e :: "nat \<Rightarrow> bool" where
  "enough_e n \<longleftrightarrow> (\<forall>s vs t. parse_elements n s = Some (vs, t) \<longrightarrow>
      length t < length s \<and> (\<forall>m. length s \<le> m + length t \<longrightarrow> parse_elements m s = Some (vs, t)))"

definition enough_m :: "nat \<Rightarrow> bool" where
  "enough_m n \<longleftrightarrow> (\<forall>s kvs t. parse_members n s = Some (kvs, t) \<longrightarrow>
      length t < length s \<and> (\<forall>m. length s \<le> m + length t \<longrightarrow> parse_members m s = Some (kvs, t)))"

section \<open>How a chain of calls runs\<close>

lemma invoke_Inr:
  "invoke m x h = Inr (y, h') \<Longrightarrow>
     \<exists>a r s'. x = Inst a \<and> a < length (objs h) \<and> m (objs h ! a) = Inr (r, s')
        \<and> y = (case r of This \<Rightarrow> Inst a | Undef \<Rightarrow> Undefined)
        \<and> h' = h\<lparr>objs := (objs h)[a := s']\<rparr>"
  by (auto simp: invoke_def split: jsval.splits if_splits sum.splits prod.splits)

lemma appends_Undefined: "appends fs Undefined h \<noteq> Inr (Inst a, h')"
  by (cases fs) (auto simp: invoke_def)

lemma entry_eq:
  "entry f h = (Inst (length (objs h)), h\<lparr>objs := objs h @ [Select_constructor (entry_text f)]\<rparr>)"
  by (cases f)
     (auto simp: entry_text_def builder_element_def builder_id_def builder_class_def
        builder_attr_def builder_pseudoClass_def builder_pseudoElement_def new_Select_def)

text \<open>
  A property of the trace and the fields that holds after the first call and that every
  call returning the instance keeps, holds at the end of a chain that ends in an instance.
  A chain cannot go on after \<^verbatim>\<open>element()\<close>, which returns \<^verbatim>\<open>undefined\<close>.
\<close>

lemma appends_invariant:
  assumes step: "\<And>f s s' T. P T s \<Longrightarrow> append_m f s = Inr (This, s') \<Longrightarrow> P (T @ [f]) s'"
  shows "appends fs (Inst a) h = Inr (Inst a', h') \<Longrightarrow> a < length (objs h) \<Longrightarrow> P T (objs h ! a)
     \<Longrightarrow> a' = a \<and> a < length (objs h') \<and> P (T @ fs) (objs h' ! a)"
proof (induction fs arbitrary: h T)
  case Nil
  then show ?case by simp
next
  case (Cons f fs)
  from Cons.prems(1) obtain y h1 where inv: "invoke (append_m f) (Inst a) h = Inr (y, h1)"
    and rest: "appends fs y h1 = Inr (Inst a', h')"
    by (auto split: sum.splits)
  from invoke_Inr[OF inv] obtain r s' where m: "append_m f (objs h ! a) = Inr (r, s')"
    and y: "y = (case r of This \<Rightarrow> Inst a | Undef \<Rightarrow> Undefined)"
    and h1: "h1 = h\<lparr>objs := (objs h)[a := s']\<rparr>"
    by auto
  have r: "r = This"
  proof (cases r)
    case Undef
    with y rest show ?thesis by (simp add: appends_Undefined)
  qed simp
  with y have y': "y = Inst a" by simp
  have len: "a < length (objs h1)" using Cons.prems(2) h1 by simp
  have "objs h1 ! a = s'" using Cons.prems(2) h1 by simp
  moreover have "P (T @ [f]) s'" using step[OF Cons.prems(3)] m r by simp
  ultimately have "P (T @ [f]) (objs h1 ! a)" by simp
  from Cons.IH[OF rest[unfolded y'] len this] show ?case by simp
qed

lemma chain_invariant:
  assumes init: "P [f] (Select_constructor (entry_text f))"
  assumes step: "\<And>f s s' T. P T s \<Longrightarrow> append_m f s = Inr (This, s') \<Longrightarrow> P (T @ [f]) s'"
  assumes run: "chain f fs h = Inr (Inst a, h')"
  shows "a = length (objs h) \<and> a < length (objs h') \<and> P (f # fs) (objs h' ! a)"
proof -
  let ?h1 = "h\<lparr>objs := objs h @ [Select_constructor (entry_text f)]\<rparr>"
  let ?a = "length (objs h)"
  from run have r: "appends fs (Inst ?a) ?h1 = Inr (Inst a, h')"
    by (simp add: chain_def entry_eq)
  have len: "?a < length (objs ?h1)" by simp
  have P0: "P [f] (objs ?h1 ! ?a)" using init by simp
  from appends_invariant[of P, OF step r len P0] show ?thesis by auto
qed

subsection \<open>What each method does when it raises nothing\<close>

lemma Select_element_Inr:
  "Select_element s = Inr (r, s') \<Longrightarrow> r = Undef \<and> s' = s"
  by (simp add: Select_element_def split: if_splits)

lemma Select_id_Inr:
  "Select_id v s = Inr (r, s') \<Longrightarrow>
     r = This \<and> s' = s\<lparr>id_prop := ''#'' @ v\<rparr> \<and> id_prop s = [] \<and> class_prop s = []
       \<and> attr_prop s = [] \<and> pseudoClass_prop s = [] \<and> pseudoElement_prop s = []"
  by (simp add: Select_id_def split: if_splits)

lemma Select_class_Inr:
  "Select_class v s = Inr (r, s') \<Longrightarrow>
     r = This \<and> s' = s\<lparr>class_prop := class_prop s @ [''.'' @ v]\<rparr>
       \<and> attr_prop s = [] \<and> pseudoClass_prop s = [] \<and> pseudoElement_prop s = []"
  by (simp add: Select_class_def split: if_splits)

lemma Select_attr_Inr:
  "Select_attr v s = Inr (r, s') \<Longrightarrow>
     r = This \<and> s' = s\<lparr>attr_prop := attr_prop s @ [''['' @ v @ '']'']\<rparr>
       \<and> pseudoClass_prop s = [] \<and> pseudoElement_prop s = []"
  by (simp add: Select_attr_def split: if_splits)

lemma Select_pseudoClass_Inr:
  "Select_pseudoClass v s = Inr (r, s') \<Longrightarrow>
     r = This \<and> s' = s\<lparr>pseudoClass_prop := pseudoClass_prop s @ ['':'' @ v]\<rparr>
       \<and> pseudoElement_prop s = []"
  by (simp add: Select_pseudoClass_def split: if_splits)

lemma Select_pseudoElement_Inr:
  "Select_pseudoElement v s = Inr (r, s') \<Longrightarrow>
     r = This \<and> s' = s\<lparr>pseudoElement_prop := ''::'' @ v\<rparr> \<and> pseudoElement_prop s = []"
  by (simp add: Select_pseudoElement_def split: if_splits)

lemma no_This_from_element: "Select_element s \<noteq> Inr (This, s')"
  by (simp add: Select_element_def)

text \<open>
  The five methods other than \<^verbatim>\<open>element\<close> return their receiver whenever they raise
  nothing: the call yields the address it was made on, and only the fields under that
  address change.
\<close>

lemma append_returns_receiver:
  assumes "kind g \<noteq> 0" and "invoke (append_m g) x h = Inr (y, h')"
  shows "y = x \<and> (\<exists>a s'. x = Inst a \<and> a < length (objs h)
            \<and> append_m g (objs h ! a) = Inr (This, s') \<and> h' = h\<lparr>objs := (objs h)[a := s']\<rparr>)"
proof -
  from invoke_Inr[OF assms(2)] obtain a r s' where x: "x = Inst a" "a < length (objs h)"
    and m: "append_m g (objs h ! a) = Inr (r, s')"
    and y: "y = (case r of This \<Rightarrow> Inst a | Undef \<Rightarrow> Undefined)"
    and h': "h' = h\<lparr>objs := (objs h)[a := s']\<rparr>"
    by blast
  have "r = This"
    using assms(1) m
    by (cases g)
       (auto dest: Select_id_Inr Select_class_Inr Select_attr_Inr Select_pseudoClass_Inr
          Select_pseudoElement_Inr)
  with x m y h' show ?thesis by simp
qed

subsection \<open>The text invariant\<close>

lemma spec_of_snoc: "spec_of (T @ [f]) = spec_add (spec_of T) f"
  by (simp add: spec_of_def)

lemma take2_colon: "take 2 ('':'' @ v) = ''::'' \<longleftrightarrow> take 1 v = '':''"
  by (cases v) auto

lemma take2_take1: "take 2 v = ''::'' \<Longrightarrow> take 1 v = '':''"
  by (cases v) auto

lemmas init_defs =
  string_inv_def Select_init_def spec_of_def spec_empty_def Select_stringify_def
  spec_stringify_def Select_constructor_def

lemma string_init_Element: "string_inv [Element v] (Select_constructor v)"
  by (simp add: init_defs)

lemma string_init_Id: "string_inv [Id v] (Select_constructor (''#'' @ v))"
  by (simp add: init_defs)

lemma string_init_Class: "string_inv [Class v] (Select_constructor (''.'' @ v))"
  by (simp add: init_defs)

lemma string_init_Attr: "string_inv [Attr v] (Select_constructor (''['' @ v @ '']''))"
  by (simp add: init_defs)

lemma string_init_PseudoClass: "string_inv [PseudoClass v] (Select_constructor ('':'' @ v))"
  by (simp add: init_defs take2_colon)

lemma string_init_PseudoElement: "string_inv [PseudoElement v] (Select_constructor (''::'' @ v))"
  by (simp add: init_defs)

lemma string_inv_init: "string_inv [f] (Select_constructor (entry_text f))"
proof (cases f)
  case (Element v)
  then show ?thesis using string_init_Element[of v] by (simp add: entry_text_def)
next
  case (Id v)
  then show ?thesis using string_init_Id[of v] by (simp add: entry_text_def)
next
  case (Class v)
  then show ?thesis using string_init_Class[of v] by (simp add: entry_text_def)
next
  case (Attr v)
  then show ?thesis using string_init_Attr[of v] by (simp add: entry_text_def)
next
  case (PseudoClass v)
  then show ?thesis using string_init_PseudoClass[of v] by (simp add: entry_text_def)
next
  case (PseudoElement v)
  then show ?thesis using string_init_PseudoElement[of v] by (simp add: entry_text_def)
qed

lemmas step_defs = string_inv_def spec_of_snoc Select_stringify_def spec_stringify_def

lemma string_step_Id:
  "string_inv T s \<Longrightarrow> Select_id v s = Inr (This, s') \<Longrightarrow> string_inv (T @ [Id v]) s'"
  by (drule Select_id_Inr) (simp add: step_defs)

lemma string_step_Class:
  "string_inv T s \<Longrightarrow> Select_class v s = Inr (This, s') \<Longrightarrow> string_inv (T @ [Class v]) s'"
  by (drule Select_class_Inr) (simp add: step_defs)

lemma string_step_Attr:
  "string_inv T s \<Longrightarrow> Select_attr v s = Inr (This, s') \<Longrightarrow> string_inv (T @ [Attr v]) s'"
  by (drule Select_attr_Inr) (simp add: step_defs)

lemma string_step_PseudoClass:
  "string_inv T s \<Longrightarrow> Select_pseudoClass v s = Inr (This, s')
     \<Longrightarrow> string_inv (T @ [PseudoClass v]) s'"
  by (drule Select_pseudoClass_Inr) (simp add: step_defs)

lemma string_step_PseudoElement:
  "string_inv T s \<Longrightarrow> Select_pseudoElement v s = Inr (This, s')
     \<Longrightarrow> string_inv (T @ [PseudoElement v]) s'"
  by (drule Select_pseudoElement_Inr) (simp add: step_defs)

lemma string_inv_step:
  "string_inv T s \<Longrightarrow> append_m f s = Inr (This, s') \<Longrightarrow> string_inv (T @ [f]) s'"
  by (cases f)
     (simp_all add: no_This_from_element string_step_Id string_step_Class string_step_Attr
        string_step_PseudoClass string_step_PseudoElement)

subsection \<open>The invariant of the fields that are set\<close>

lemma set_init_Element: "set_inv [Element v] (Select_constructor v)"
  by (auto simp add: set_inv_def Select_init_def Select_constructor_def plain_def
        dest: take2_take1)

lemma set_init_Id: "set_inv [Id v] (Select_constructor (''#'' @ v))"
  by (simp add: set_inv_def Select_init_def Select_constructor_def)

lemma set_init_Class: "set_inv [Class v] (Select_constructor (''.'' @ v))"
  by (simp add: set_inv_def Select_init_def Select_constructor_def)

lemma set_init_Attr: "set_inv [Attr v] (Select_constructor (''['' @ v @ '']''))"
  by (simp add: set_inv_def Select_init_def Select_constructor_def)

lemma set_init_PseudoClass: "set_inv [PseudoClass v] (Select_constructor ('':'' @ v))"
  by (simp add: set_inv_def Select_init_def Select_constructor_def take2_colon)

lemma set_init_PseudoElement: "set_inv [PseudoElement v] (Select_constructor (''::'' @ v))"
  by (simp add: set_inv_def Select_init_def Select_constructor_def)

lemma set_inv_init: "set_inv [f] (Select_constructor (entry_text f))"
proof (cases f)
  case (Element v)
  then show ?thesis using set_init_Element[of v] by (simp add: entry_text_def)
next
  case (Id v)
  then show ?thesis using set_init_Id[of v] by (simp add: entry_text_def)
next
  case (Class v)
  then show ?thesis using set_init_Class[of v] by (simp add: entry_text_def)
next
  case (Attr v)
  then show ?thesis using set_init_Attr[of v] by (simp add: entry_text_def)
next
  case (PseudoClass v)
  then show ?thesis using set_init_PseudoClass[of v] by (simp add: entry_text_def)
next
  case (PseudoElement v)
  then show ?thesis using set_init_PseudoElement[of v] by (simp add: entry_text_def)
qed

lemma set_step_Id:
  "set_inv T s \<Longrightarrow> Select_id v s = Inr (This, s') \<Longrightarrow> set_inv (T @ [Id v]) s'"
  by (drule Select_id_Inr) (simp add: set_inv_def)

lemma set_step_Class:
  "set_inv T s \<Longrightarrow> Select_class v s = Inr (This, s') \<Longrightarrow> set_inv (T @ [Class v]) s'"
  by (drule Select_class_Inr) (simp add: set_inv_def)

lemma set_step_Attr:
  "set_inv T s \<Longrightarrow> Select_attr v s = Inr (This, s') \<Longrightarrow> set_inv (T @ [Attr v]) s'"
  by (drule Select_attr_Inr) (simp add: set_inv_def)

lemma set_step_PseudoClass:
  "set_inv T s \<Longrightarrow> Select_pseudoClass v s = Inr (This, s') \<Longrightarrow> set_inv (T @ [PseudoClass v]) s'"
  by (drule Select_pseudoClass_Inr) (simp add: set_inv_def)

lemma set_step_PseudoElement:
  "set_inv T s \<Longrightarrow> Select_pseudoElement v s = Inr (This, s')
     \<Longrightarrow> set_inv (T @ [PseudoElement v]) s'"
  by (drule Select_pseudoElement_Inr) (simp add: set_inv_def)

lemma set_inv_step:
  "set_inv T s \<Longrightarrow> append_m f s = Inr (This, s') \<Longrightarrow> set_inv (T @ [f]) s'"
  by (cases f)
     (simp_all add: no_This_from_element set_step_Id set_step_Class set_step_Attr
        set_step_PseudoClass set_step_PseudoElement)

lemma chain_string_inv:
  assumes run: "chain f fs h = Inr (Inst a, h')"
  shows "a < length (objs h') \<and> string_inv (f # fs) (objs h' ! a)"
proof -
  have "a = length (objs h) \<and> a < length (objs h') \<and> string_inv (f # fs) (objs h' ! a)"
    by (rule chain_invariant[where P = string_inv])
       (rule string_inv_init, erule (1) string_inv_step, rule run)
  then show ?thesis by blast
qed

lemma chain_set_inv:
  assumes run: "chain f fs h = Inr (Inst a, h')"
  shows "a < length (objs h') \<and> set_inv (f # fs) (objs h' ! a)"
proof -
  have "a = length (objs h) \<and> a < length (objs h') \<and> set_inv (f # fs) (objs h' ! a)"
    by (rule chain_invariant[where P = set_inv])
       (rule set_inv_init, erule (1) set_inv_step, rule run)
  then show ?thesis by blast
qed

lemma later_set:
  assumes "set_inv T s" "g' \<in> set T"
  shows "(kind g' = 1 \<longrightarrow> id_prop s \<noteq> []) \<and> (kind g' = 2 \<longrightarrow> class_prop s \<noteq> [])
     \<and> (kind g' = 3 \<longrightarrow> attr_prop s \<noteq> [])
     \<and> (kind g' = 4 \<longrightarrow> pseudoClass_prop s \<noteq> [] \<or> pseudoElement_prop s \<noteq> [])
     \<and> (kind g' = 5 \<longrightarrow> pseudoElement_prop s \<noteq> [])"
  using assms by (cases g') (auto simp: set_inv_def)

lemma messages_differ: "once_msg \<noteq> order_msg"
  by (simp add: once_msg_def order_msg_def)

lemmas eval_defs =
  chain_def then_call_def then_stringify_def builder_element_def builder_id_def
  builder_class_def builder_attr_def builder_pseudoClass_def builder_pseudoElement_def
  new_Select_def empty_store_def Select_constructor_def Select_init_def invoke_def
  Select_element_def Select_id_def Select_class_def Select_attr_def Select_pseudoClass_def
  Select_pseudoElement_def Select_stringify_def builder_combine_def

section \<open>The selector builder: claims\<close>

text \<open>
  C1 (append operations set the fragment and return the instance). The methods \<^verbatim>\<open>id\<close>,
  \<^verbatim>\<open>class\<close>, \<^verbatim>\<open>attr\<close>, \<^verbatim>\<open>pseudoClass\<close> and \<^verbatim>\<open>pseudoElement\<close> do so. The method \<^verbatim>\<open>element\<close>
  does not: whenever its two checks pass it returns \<^verbatim>\<open>undefined\<close> and leaves every
  field as it was. On the instance made by \<^verbatim>\<open>builder.element('')\<close> both checks pass, and
  \<^verbatim>\<open>.element('div')\<close> returns \<^verbatim>\<open>undefined\<close>; the text of the instance stays empty.
\<close>

theorem element_call_sets_nothing:
  "(\<forall>this r this'. Select_element this = Inr (r, this') \<longrightarrow> r = Undef \<and> this' = this)
   \<and> Select_element Select_init = Inr (Undef, Select_init)
   \<and> chain (Element '''') [] empty_store
       = Inr (Inst 0, \<lparr>objs = [Select_init], builder_selector = None\<rparr>)
   \<and> then_call (chain (Element '''') [] empty_store) (Element ''div'')
       = Inr (Undefined, \<lparr>objs = [Select_init], builder_selector = None\<rparr>)
   \<and> stringify (Inst 0) \<lparr>objs = [Select_init], builder_selector = None\<rparr> = Inr (Str '''')"
proof (intro conjI allI impI)
  fix this r this'
  assume "Select_element this = Inr (r, this')"
  then show "r = Undef" and "this' = this" by (simp_all add: Select_element_Inr)
next
  show "Select_element Select_init = Inr (Undef, Select_init)"
    by (simp add: Select_element_def Select_init_def)
next
  show "chain (Element '''') [] empty_store
       = Inr (Inst 0, \<lparr>objs = [Select_init], builder_selector = None\<rparr>)"
    by (simp add: eval_defs)
next
  show "then_call (chain (Element '''') [] empty_store) (Element ''div'')
       = Inr (Undefined, \<lparr>objs = [Select_init], builder_selector = None\<rparr>)"
    by (simp add: eval_defs)
next
  show "stringify (Inst 0) \<lparr>objs = [Select_init], builder_selector = None\<rparr> = Inr (Str '''')"
    by (simp add: Select_stringify_def Select_init_def)
qed

theorem element_call_sets_nothing_witness:
  "Select_element Select_init = Inr (Undef, Select_init)
   \<and> then_call (chain (Element '''') [] empty_store) (Element ''div'')
       \<noteq> Inr (Inst 0, \<lparr>objs = [Select_init\<lparr>element_prop := ''div''\<rparr>], builder_selector = None\<rparr>)"
proof -
  from element_call_sets_nothing
  have a: "Select_element Select_init = Inr (Undef, Select_init)" by blast
  from element_call_sets_nothing
  have b: "then_call (chain (Element '''') [] empty_store) (Element ''div'')
       = Inr (Undefined, \<lparr>objs = [Select_init], builder_selector = None\<rparr>)" by blast
  show ?thesis unfolding b using a by simp
qed

text \<open>
  C4 (the text of an instance). For every chain of calls that raised nothing and ended
  in an instance, \<^verbatim>\<open>stringify()\<close> of that instance is the text the specification gives
  for the fragments of the chain: the element name, \<^verbatim>\<open>#\<close> and the id, each class after
  \<^verbatim>\<open>.\<close>, each attribute in brackets, each pseudo-class after \<^verbatim>\<open>:\<close>, \<^verbatim>\<open>::\<close> and the
  pseudo-element, with nothing between. The two examples of the specification hold.
\<close>

theorem stringify_chain:
  "(\<forall>f fs h a h'. chain f fs h = Inr (Inst a, h') \<longrightarrow>
       stringify (Inst a) h' = Inr (Str (spec_stringify (spec_of (f # fs)))))
   \<and> then_stringify (chain (Id ''main'') [Class ''container'', Class ''editable''] empty_store)
       = Inr (Str ''#main.container.editable'')
   \<and> then_stringify (chain (Element ''a'') [Attr ''href$=\".png\"'', PseudoClass ''focus''] empty_store)
       = Inr (Str ''a[href$=\".png\"]:focus'')"
proof (intro conjI allI impI)
  fix f fs h a h'
  assume run: "chain f fs h = Inr (Inst a, h')"
  from chain_string_inv[OF run]
  have "a < length (objs h')" and "string_inv (f # fs) (objs h' ! a)" by auto
  then show "stringify (Inst a) h' = Inr (Str (spec_stringify (spec_of (f # fs))))"
    by (simp add: string_inv_def)
next
  show "then_stringify (chain (Id ''main'') [Class ''container'', Class ''editable''] empty_store)
       = Inr (Str ''#main.container.editable'')"
    by (simp add: eval_defs)
next
  show "then_stringify (chain (Element ''a'') [Attr ''href$=\".png\"'', PseudoClass ''focus''] empty_store)
       = Inr (Str ''a[href$=\".png\"]:focus'')"
    by (simp add: eval_defs)
qed

theorem stringify_chain_witness:
  "chain (Element ''div'') [Id ''main'', Class ''c'', Attr ''x'', PseudoClass ''hover'', PseudoElement ''after'']
       empty_store
     = Inr (Inst 0, \<lparr>objs = [\<lparr>element_prop = ''div'', id_prop = ''#main'', class_prop = [''.c''],
          attr_prop = [''[x]''], pseudoClass_prop = ['':hover''], pseudoElement_prop = ''::after'',
          selector = None\<rparr>], builder_selector = None\<rparr>)
   \<and> stringify (Inst 0) \<lparr>objs = [\<lparr>element_prop = ''div'', id_prop = ''#main'', class_prop = [''.c''],
          attr_prop = [''[x]''], pseudoClass_prop = ['':hover''], pseudoElement_prop = ''::after'',
          selector = None\<rparr>], builder_selector = None\<rparr>
     = Inr (Str ''div#main.c[x]:hover::after'')"
proof -
  have run: "chain (Element ''div'') [Id ''main'', Class ''c'', Attr ''x'', PseudoClass ''hover'', PseudoElement ''after'']
       empty_store
     = Inr (Inst 0, \<lparr>objs = [\<lparr>element_prop = ''div'', id_prop = ''#main'', class_prop = [''.c''],
          attr_prop = [''[x]''], pseudoClass_prop = ['':hover''], pseudoElement_prop = ''::after'',
          selector = None\<rparr>], builder_selector = None\<rparr>)"
    by (simp add: eval_defs)
  have spec: "spec_stringify (spec_of [Element ''div'', Id ''main'', Class ''c'', Attr ''x'',
       PseudoClass ''hover'', PseudoElement ''after'']) = ''div#main.c[x]:hover::after''"
    by (simp add: spec_stringify_def spec_of_def spec_empty_def)
  from stringify_chain[THEN conjunct1, rule_format, OF run] spec run show ?thesis by simp
qed

text \<open>
  C5 (a fragment after a later kind), as the code has it. After a chain that raised
  nothing, appending a fragment of a kind that stands before the kind of some fragment
  of the chain raises an error at that call. The error is the out-of-order error, except
  for \<^verbatim>\<open>element\<close> on an instance that holds a non-empty element and for \<^verbatim>\<open>id\<close> on an
  instance that holds a non-empty id: there the check for a second singular fragment
  comes first and its error is raised. \<^verbatim>\<open>.class('x')\<close> after \<^verbatim>\<open>.attr('y')\<close> raises the
  out-of-order error.
\<close>

theorem out_of_order_error:
  "(\<forall>f fs h a h' g g'.
       chain f fs h = Inr (Inst a, h') \<and> g' \<in> set (f # fs) \<and> kind g < kind g' \<longrightarrow>
       invoke (append_m g) (Inst a) h' =
         Inl (Error (if (kind g = 0 \<and> element_prop (objs h' ! a) \<noteq> [])
                         \<or> (kind g = 1 \<and> id_prop (objs h' ! a) \<noteq> [])
                     then once_msg else order_msg)))
   \<and> then_call (chain (Attr ''y'') [] empty_store) (Class ''x'') = Inl (Error order_msg)
   \<and> then_call (chain (Element ''div'') [Attr ''y''] empty_store) (Class ''x'') = Inl (Error order_msg)"
proof (intro conjI allI impI)
  fix f fs h a h' g g'
  assume asm: "chain f fs h = Inr (Inst a, h') \<and> g' \<in> set (f # fs) \<and> kind g < kind g'"
  then have run: "chain f fs h = Inr (Inst a, h')" and mem: "g' \<in> set (f # fs)"
    and later: "kind g < kind g'" by auto
  from chain_set_inv[OF run] have len: "a < length (objs h')"
    and inv: "set_inv (f # fs) (objs h' ! a)" by auto
  note L = later_set[OF inv mem]
  have k: "kind g' \<le> 5" by (cases g') auto
  show "invoke (append_m g) (Inst a) h' =
         Inl (Error (if (kind g = 0 \<and> element_prop (objs h' ! a) \<noteq> [])
                         \<or> (kind g = 1 \<and> id_prop (objs h' ! a) \<noteq> [])
                     then once_msg else order_msg))"
  proof (cases g)
    case (Element v)
    with later k have "kind g' = 1 \<or> kind g' = 2 \<or> kind g' = 3 \<or> kind g' = 4 \<or> kind g' = 5"
      by auto
    with L Element len show ?thesis by (auto simp: invoke_def Select_element_def)
  next
    case (Id v)
    with later k have "kind g' = 2 \<or> kind g' = 3 \<or> kind g' = 4 \<or> kind g' = 5" by auto
    with L Id len show ?thesis by (auto simp: invoke_def Select_id_def)
  next
    case (Class v)
    with later k have "kind g' = 3 \<or> kind g' = 4 \<or> kind g' = 5" by auto
    with L Class len show ?thesis by (auto simp: invoke_def Select_class_def)
  next
    case (Attr v)
    with later k have "kind g' = 4 \<or> kind g' = 5" by auto
    with L Attr len show ?thesis by (auto simp: invoke_def Select_attr_def)
  next
    case (PseudoClass v)
    with later k have "kind g' = 5" by auto
    with L PseudoClass len show ?thesis by (auto simp: invoke_def Select_pseudoClass_def)
  next
    case (PseudoElement v)
    with later k show ?thesis by auto
  qed
next
  show "then_call (chain (Attr ''y'') [] empty_store) (Class ''x'') = Inl (Error order_msg)"
    by (simp add: eval_defs)
next
  show "then_call (chain (Element ''div'') [Attr ''y''] empty_store) (Class ''x'')
      = Inl (Error order_msg)"
    by (simp add: eval_defs)
qed

theorem out_of_order_error_witness:
  "chain (Id ''main'') [PseudoClass ''hover''] empty_store
     = Inr (Inst 0, \<lparr>objs = [Select_init\<lparr>id_prop := ''#main'', pseudoClass_prop := ['':hover'']\<rparr>],
          builder_selector = None\<rparr>)
   \<and> PseudoClass ''hover'' \<in> set [Id ''main'', PseudoClass ''hover'']
   \<and> kind (Class ''c'') < kind (PseudoClass ''hover'')
   \<and> invoke (append_m (Class ''c'')) (Inst 0)
        \<lparr>objs = [Select_init\<lparr>id_prop := ''#main'', pseudoClass_prop := ['':hover'']\<rparr>],
          builder_selector = None\<rparr>
       = Inl (Error order_msg)"
proof -
  have run: "chain (Id ''main'') [PseudoClass ''hover''] empty_store
     = Inr (Inst 0, \<lparr>objs = [Select_init\<lparr>id_prop := ''#main'', pseudoClass_prop := ['':hover'']\<rparr>],
          builder_selector = None\<rparr>)"
    by (simp add: eval_defs)
  have mem: "PseudoClass ''hover'' \<in> set (Id ''main'' # [PseudoClass ''hover''])" by simp
  have later: "kind (Class ''c'') < kind (PseudoClass ''hover'')" by simp
  from out_of_order_error[THEN conjunct1, rule_format, OF conjI[OF run conjI[OF mem later]]]
  have "invoke (append_m (Class ''c'')) (Inst 0)
        \<lparr>objs = [Select_init\<lparr>id_prop := ''#main'', pseudoClass_prop := ['':hover'']\<rparr>],
          builder_selector = None\<rparr>
       = Inl (Error order_msg)"
    by simp
  with run show ?thesis by simp
qed

text \<open>
  The claim as the specification states it fails: \<^verbatim>\<open>builder.element('a').id('b')\<close> holds
  an id, which stands after the element, and \<^verbatim>\<open>.element('c')\<close> on it raises the error
  for a second singular fragment, not the out-of-order error.
\<close>

theorem out_of_order_error_counterexample:
  "then_call (chain (Element ''a'') [Id ''b''] empty_store) (Element ''c'') = Inl (Error once_msg)
   \<and> then_call (chain (Element ''a'') [Id ''b''] empty_store) (Element ''c'') \<noteq> Inl (Error order_msg)"
  by (simp add: eval_defs messages_differ)

text \<open>
  Where a second singular fragment is refused. After a chain that raised nothing, \<^verbatim>\<open>id\<close>
  raises the error for a second singular fragment when the chain has an id, and
  \<^verbatim>\<open>pseudoElement\<close> when the chain has a pseudo-element, whatever their values are;
  \<^verbatim>\<open>element\<close> raises it when the chain has an element whose name is not empty and does
  not begin with \<^verbatim>\<open>#\<close>, \<^verbatim>\<open>.\<close>, \<^verbatim>\<open>[\<close> or \<^verbatim>\<open>:\<close>. This holds whatever later kinds the chain
  has: the check stands before the ordering check.
\<close>

lemma second_singular_raises:
  "(\<forall>f fs h a h' w. chain f fs h = Inr (Inst a, h') \<longrightarrow>
       ((\<exists>v. Id v \<in> set (f # fs)) \<longrightarrow>
          invoke (append_m (Id w)) (Inst a) h' = Inl (Error once_msg))
     \<and> ((\<exists>v. PseudoElement v \<in> set (f # fs)) \<longrightarrow>
          invoke (append_m (PseudoElement w)) (Inst a) h' = Inl (Error once_msg))
     \<and> ((\<exists>v. Element v \<in> set (f # fs) \<and> plain v) \<longrightarrow>
          invoke (append_m (Element w)) (Inst a) h' = Inl (Error once_msg)))
   \<and> then_call (chain (Id ''a'') [] empty_store) (Id ''a'') = Inl (Error once_msg)
   \<and> then_call (chain (Element ''div'') [Id ''a''] empty_store) (Id ''a'') = Inl (Error once_msg)"
proof (intro conjI allI impI)
  fix f fs h a h' w
  assume run: "chain f fs h = Inr (Inst a, h')"
  from chain_set_inv[OF run] have len: "a < length (objs h')"
    and inv: "set_inv (f # fs) (objs h' ! a)" by auto
  {
    assume "\<exists>v. Id v \<in> set (f # fs)"
    with inv have "id_prop (objs h' ! a) \<noteq> []" unfolding set_inv_def by blast
    with len show "invoke (append_m (Id w)) (Inst a) h' = Inl (Error once_msg)"
      by (simp add: invoke_def Select_id_def)
  }
  {
    assume "\<exists>v. PseudoElement v \<in> set (f # fs)"
    with inv have "pseudoElement_prop (objs h' ! a) \<noteq> []" unfolding set_inv_def by blast
    with len show "invoke (append_m (PseudoElement w)) (Inst a) h' = Inl (Error once_msg)"
      by (simp add: invoke_def Select_pseudoElement_def)
  }
  {
    assume "\<exists>v. Element v \<in> set (f # fs) \<and> plain v"
    with inv have "element_prop (objs h' ! a) \<noteq> []" unfolding set_inv_def by blast
    with len show "invoke (append_m (Element w)) (Inst a) h' = Inl (Error once_msg)"
      by (simp add: invoke_def Select_element_def)
  }
next
  show "then_call (chain (Id ''a'') [] empty_store) (Id ''a'') = Inl (Error once_msg)"
    by (simp add: eval_defs)
next
  show "then_call (chain (Element ''div'') [Id ''a''] empty_store) (Id ''a'') = Inl (Error once_msg)"
    by (simp add: eval_defs)
qed

lemma prefixed_element_is_filed_elsewhere:
  "then_call (chain (Element ''#a'') [] empty_store) (Element ''b'') = Inl (Error order_msg)"
  by (simp add: eval_defs)

text \<open>
  C6 (a second singular fragment raises the duplicate error). The code does not keep this
  for an element whose name is empty. The guard of \<^verbatim>\<open>element\<close> tests the stored name for
  truth, and the empty name that \<^verbatim>\<open>builder.element('')\<close> stored is not true: the second
  \<^verbatim>\<open>.element('')\<close> on that instance raises nothing and returns \<^verbatim>\<open>undefined\<close>. The same
  two calls with \<^verbatim>\<open>id('')\<close> or with \<^verbatim>\<open>pseudoElement('')\<close> raise the error, since what they
  store begins with \<^verbatim>\<open>#\<close> or \<^verbatim>\<open>::\<close>; so does \<^verbatim>\<open>.id('a')\<close> called twice.
\<close>

theorem second_empty_element_not_refused:
  "then_call (chain (Element '''') [] empty_store) (Element '''')
     = Inr (Undefined, \<lparr>objs = [Select_init], builder_selector = None\<rparr>)
   \<and> then_call (chain (Element '''') [] empty_store) (Element '''') \<noteq> Inl (Error once_msg)
   \<and> then_call (chain (Id '''') [] empty_store) (Id '''') = Inl (Error once_msg)
   \<and> then_call (chain (PseudoElement '''') [] empty_store) (PseudoElement '''')
       = Inl (Error once_msg)
   \<and> then_call (chain (Id ''a'') [] empty_store) (Id ''a'') = Inl (Error once_msg)
   \<and> then_call (chain (Element ''div'') [Id ''a''] empty_store) (Id ''a'') = Inl (Error once_msg)"
  by (simp add: eval_defs)

theorem second_empty_element_not_refused_witness:
  "then_call (chain (Element '''') [] empty_store) (Element '''')
     \<noteq> then_call (chain (Id '''') [] empty_store) (Id '''')"
proof -
  from second_empty_element_not_refused
  have a: "then_call (chain (Element '''') [] empty_store) (Element '''')
     = Inr (Undefined, \<lparr>objs = [Select_init], builder_selector = None\<rparr>)" by blast
  from second_empty_element_not_refused
  have b: "then_call (chain (Id '''') [] empty_store) (Id '''') = Inl (Error once_msg)" by blast
  show ?thesis unfolding a b by simp
qed

text \<open>
  C7 (combine joins the two texts). For selectors \<open>A\<close> and \<open>B\<close> whose \<^verbatim>\<open>stringify()\<close>
  gives the texts \<open>a\<close> and \<open>b\<close>, and for every token \<open>t\<close>, \<^verbatim>\<open>builder.combine(A, t, B)\<close>
  raises nothing, changes nothing but the stored text of the facade, and returns a value
  whose \<^verbatim>\<open>stringify()\<close> is \<open>a\<close>, a space, \<open>t\<close>, a space, \<open>b\<close>. The example of the
  specification gives \<^verbatim>\<open>'div + span'\<close>.
\<close>

theorem combine_joins:
  "(\<forall>A B t h a b. stringify A h = Inr (Str a) \<and> stringify B h = Inr (Str b) \<longrightarrow>
       builder_combine A t B h
         = Inr (Builder, h\<lparr>builder_selector := Some (a @ '' '' @ t @ '' '' @ b)\<rparr>)
       \<and> then_stringify (builder_combine A t B h) = Inr (Str (a @ '' '' @ t @ '' '' @ b)))
   \<and> (case builder_element ''div'' empty_store of (x1, h1) \<Rightarrow>
         case builder_element ''span'' h1 of (x2, h2) \<Rightarrow>
           then_stringify (builder_combine x1 ''+'' x2 h2)) = Inr (Str ''div + span'')"
proof (intro conjI allI impI)
  fix A B t h a b
  assume asm: "stringify A h = Inr (Str a) \<and> stringify B h = Inr (Str b)"
  then show "builder_combine A t B h
         = Inr (Builder, h\<lparr>builder_selector := Some (a @ '' '' @ t @ '' '' @ b)\<rparr>)"
    by (simp add: builder_combine_def)
  from asm show "then_stringify (builder_combine A t B h) = Inr (Str (a @ '' '' @ t @ '' '' @ b))"
    by (simp add: builder_combine_def then_stringify_def)
next
  show "(case builder_element ''div'' empty_store of (x1, h1) \<Rightarrow>
         case builder_element ''span'' h1 of (x2, h2) \<Rightarrow>
           then_stringify (builder_combine x1 ''+'' x2 h2)) = Inr (Str ''div + span'')"
    by (simp add: eval_defs)
qed

theorem combine_joins_witness:
  "stringify (Inst 0) \<lparr>objs = [Select_constructor ''ul'', Select_constructor ''.item''],
        builder_selector = None\<rparr> = Inr (Str ''ul'')
   \<and> stringify (Inst 1) \<lparr>objs = [Select_constructor ''ul'', Select_constructor ''.item''],
        builder_selector = None\<rparr> = Inr (Str ''.item'')
   \<and> then_stringify (builder_combine (Inst 0) ''>'' (Inst 1)
        \<lparr>objs = [Select_constructor ''ul'', Select_constructor ''.item''],
          builder_selector = None\<rparr>) = Inr (Str ''ul > .item'')"
proof -
  let ?h = "\<lparr>objs = [Select_constructor ''ul'', Select_constructor ''.item''],
        builder_selector = None\<rparr>"
  have a: "stringify (Inst 0) ?h = Inr (Str ''ul'')"
    by (simp add: Select_constructor_def Select_init_def Select_stringify_def)
  have b: "stringify (Inst 1) ?h = Inr (Str ''.item'')"
    by (simp add: Select_constructor_def Select_init_def Select_stringify_def)
  from combine_joins[THEN conjunct1, rule_format, OF conjI[OF a b], of "''>''", THEN conjunct2]
  have "then_stringify (builder_combine (Inst 0) ''>'' (Inst 1) ?h) = Inr (Str ''ul > .item'')"
    by simp
  with a b show ?thesis by simp
qed




text \<open>
  C10 (all combine results are the one facade). Every call of \<^verbatim>\<open>builder.combine\<close> that
  raises nothing returns the facade and overwrites its stored text. So the result of an
  earlier call and the result of a later call are the same value, and after the later
  call \<^verbatim>\<open>stringify()\<close> of the earlier result gives the text the later call stored.
\<close>

theorem combine_results_alias:
  assumes "builder_combine A t B h = Inr (r1, h1)"
    and "builder_combine C u D h' = Inr (r2, h2)"
  shows "r1 = Builder \<and> r2 = Builder
     \<and> (\<exists>a b. stringify A h = Inr a \<and> stringify B h = Inr b
          \<and> h1 = h\<lparr>builder_selector := Some (template a @ '' '' @ t @ '' '' @ template b)\<rparr>)
     \<and> (\<exists>c d. stringify C h' = Inr c \<and> stringify D h' = Inr d
          \<and> h2 = h'\<lparr>builder_selector := Some (template c @ '' '' @ u @ '' '' @ template d)\<rparr>
          \<and> stringify r1 h2 = Inr (Str (template c @ '' '' @ u @ '' '' @ template d))
          \<and> stringify r2 h2 = stringify r1 h2)"
  using assms by (auto simp: builder_combine_def split: sum.splits)

theorem combine_results_alias_witness:
  "builder_combine (Inst 0) ''+'' (Inst 1)
      \<lparr>objs = [Select_constructor ''div'', Select_constructor ''span''], builder_selector = None\<rparr>
     = Inr (Builder, \<lparr>objs = [Select_constructor ''div'', Select_constructor ''span''],
          builder_selector = Some ''div + span''\<rparr>)
   \<and> builder_combine (Inst 1) ''>'' (Inst 0)
      \<lparr>objs = [Select_constructor ''div'', Select_constructor ''span''],
        builder_selector = Some ''div + span''\<rparr>
     = Inr (Builder, \<lparr>objs = [Select_constructor ''div'', Select_constructor ''span''],
          builder_selector = Some ''span > div''\<rparr>)
   \<and> stringify Builder \<lparr>objs = [Select_constructor ''div'', Select_constructor ''span''],
          builder_selector = Some ''span > div''\<rparr> = Inr (Str ''span > div'')"
proof -
  let ?h = "\<lparr>objs = [Select_constructor ''div'', Select_constructor ''span''], builder_selector = None\<rparr>"
  let ?h1 = "\<lparr>objs = [Select_constructor ''div'', Select_constructor ''span''],
          builder_selector = Some ''div + span''\<rparr>"
  let ?h2 = "\<lparr>objs = [Select_constructor ''div'', Select_constructor ''span''],
          builder_selector = Some ''span > div''\<rparr>"
  have c1: "builder_combine (Inst 0) ''+'' (Inst 1) ?h = Inr (Builder, ?h1)"
    by (simp add: builder_combine_def Select_constructor_def Select_init_def Select_stringify_def)
  have c2: "builder_combine (Inst 1) ''>'' (Inst 0) ?h1 = Inr (Builder, ?h2)"
    by (simp add: builder_combine_def Select_constructor_def Select_init_def Select_stringify_def)
  from combine_results_alias[OF c1 c2] have "stringify Builder ?h2 = Inr (Str ''span > div'')"
    by (simp add: Select_constructor_def Select_init_def Select_stringify_def)
  with c1 c2 show ?thesis by simp
qed

text \<open>
  The class \<^verbatim>\<open>Select\<close> has a method \<^verbatim>\<open>combine\<close> of its own. It returns its receiver and
  stores the joined text in the field \<^verbatim>\<open>selector\<close> of the receiver, which \<^verbatim>\<open>stringify\<close>
  of an instance does not read: the text of the receiver and the stored text of the
  facade stay as they were. The claims on \<^verbatim>\<open>combine\<close> above are about the method of the
  facade.
\<close>

lemma Select_combine_keeps_text:
  assumes "Select_combine A t B x h = Inr (y, h')"
  shows "y = x \<and> stringify x h' = stringify x h \<and> builder_selector h' = builder_selector h"
proof -
  from assms obtain m where inv: "invoke m x h = Inr (y, h')"
    and m: "\<And>this. \<exists>sel. m this = Inr (This, this\<lparr>selector := sel\<rparr>)"
    unfolding Select_combine_def
    by (auto simp: Let_def split: sum.splits)
  from invoke_Inr[OF inv] obtain a r s' where x: "x = Inst a" and a: "a < length (objs h)"
    and ms: "m (objs h ! a) = Inr (r, s')"
    and y: "y = (case r of This \<Rightarrow> Inst a | Undef \<Rightarrow> Undefined)"
    and h': "h' = h\<lparr>objs := (objs h)[a := s']\<rparr>"
    by blast
  from m[of "objs h ! a"] ms obtain sel where r: "r = This"
    and s': "s' = (objs h ! a)\<lparr>selector := sel\<rparr>" by auto
  from s' have "Select_stringify s' = Select_stringify (objs h ! a)"
    by (simp add: Select_stringify_def)
  with x a y r h' show ?thesis by simp
qed

section \<open>Rectangle: claims\<close>

text \<open>
  C9 (the rectangle). The constructor stores the width and the height it is given, of
  any type and without a check, and never fails; \<^verbatim>\<open>getArea()\<close> is the height times the
  width, computed from the fields as they are at the call, so it follows a field that
  was assigned after the construction.
\<close>

theorem rectangle_fields_and_area:
  "width (new_Rectangle w h) = w \<and> height (new_Rectangle w h) = h
   \<and> getArea (new_Rectangle w h) = h * w
   \<and> getArea ((new_Rectangle w h)\<lparr>width := w'\<rparr>) = h * w'
   \<and> getArea ((new_Rectangle w h)\<lparr>height := h'\<rparr>) = h' * w"
  by (simp add: new_Rectangle_def getArea_def)

theorem rectangle_fields_and_area_witness:
  "width (new_Rectangle (10::int) 20) = 10 \<and> height (new_Rectangle (10::int) 20) = 20
   \<and> getArea (new_Rectangle (10::int) 20) = 200
   \<and> getArea (new_Rectangle (-3::int) 4) = -12"
  using rectangle_fields_and_area[of "10::int" 20] rectangle_fields_and_area[of "-3::int" 4]
  by simp

section \<open>JSON.parse reads back what JSON.stringify prints\<close>

subsection \<open>Strings\<close>

lemma hex_val_hex_digit: "n < 16 \<Longrightarrow> hex_val (hex_digit n) = Some n"
  by (auto simp: hex_val_def hex_digit_def)

lemma recompose:
  assumes "c < 65536"
  shows "((c div 4096 mod 16 * 16 + c div 256 mod 16) * 16 + c div 16 mod 16) * 16 + c mod 16 = (c::nat)"
proof -
  have a: "c div 4096 mod 16 = c div 4096" using assms by simp
  have "c div 4096 = c div 256 div 16" using div_mult2_eq[of c 256 16] by simp
  then have b: "c div 4096 * 16 + c div 256 mod 16 = c div 256" by simp
  have "c div 256 = c div 16 div 16" using div_mult2_eq[of c 16 16] by simp
  then have c': "c div 256 * 16 + c div 16 mod 16 = c div 16" by simp
  have d: "c div 16 * 16 + c mod 16 = c" by simp
  show ?thesis unfolding a b c' d ..
qed

lemma scan_unicode_escape:
  assumes "c < 65536"
  shows "scan_chars (unicode_escape c @ rest) = map_option (\<lambda>(s, t). (c # s, t)) (scan_chars rest)"
proof -
  have h: "hex_val (hex_digit (c div 4096 mod 16)) = Some (c div 4096 mod 16)"
     "hex_val (hex_digit (c div 256 mod 16)) = Some (c div 256 mod 16)"
     "hex_val (hex_digit (c div 16 mod 16)) = Some (c div 16 mod 16)"
     "hex_val (hex_digit (c mod 16)) = Some (c mod 16)"
    by (simp_all add: hex_val_hex_digit)
  show ?thesis
    unfolding unicode_escape_def
    by (simp only: append_Cons append_Nil scan_chars.simps list.case h prod.case option.case
          recompose[OF assms]) simp
qed

lemma scan_raw:
  "c \<noteq> 34 \<Longrightarrow> c \<noteq> 92 \<Longrightarrow> \<not> c < 32 \<Longrightarrow>
     scan_chars (c # rest) = map_option (\<lambda>(s, t). (c # s, t)) (scan_chars rest)"
  by simp

lemma scan_short_escape:
  "e \<noteq> 117 \<Longrightarrow> unescape e = Some u \<Longrightarrow>
     scan_chars (92 # e # rest) = map_option (\<lambda>(s, t). (u # s, t)) (scan_chars rest)"
  by simp

lemma scan_quote_unit:
  "scan_chars (quote_unit c @ rest) = map_option (\<lambda>(s, t). (c # s, t)) (scan_chars rest)"
proof -
  consider "c = 8" | "c = 9" | "c = 10" | "c = 12" | "c = 13" | "c = 34" | "c = 92"
    | "c \<notin> {8, 9, 10, 12, 13, 34, 92}" "c < 32 \<or> is_high c \<or> is_low c"
    | "c \<notin> {8, 9, 10, 12, 13, 34, 92}" "\<not> (c < 32 \<or> is_high c \<or> is_low c)"
    by blast
  then show ?thesis
  proof cases
    case 8
    then have "c < 65536" by (auto simp: is_high_def is_low_def)
    from scan_unicode_escape[OF this] 8 show ?thesis by (simp add: quote_unit_def)
  next
    case 9
    then have "quote_unit c = [c]" by (simp add: quote_unit_def)
    with 9 show ?thesis by (simp del: scan_chars.simps add: scan_raw)
  qed (simp_all add: quote_unit_def unescape_def)
qed

lemma scan_quote_units:
  "scan_chars (quote_units s @ 34 # rest) = Some (s, rest)"
proof (induction s rule: quote_units.induct)
  case 1
  show ?case by simp
next
  case (2 c)
  show ?case using scan_quote_unit[of c "34 # rest"] by simp
next
  case (3 c d r)
  show ?case
  proof (cases "is_high c \<and> is_low d")
    case True
    then have c: "c \<noteq> 34" "c \<noteq> 92" "\<not> c < 32" and d: "d \<noteq> 34" "d \<noteq> 92" "\<not> d < 32"
      by (auto simp: is_high_def is_low_def)
    from True 3 have IH: "scan_chars (quote_units r @ 34 # rest) = Some (r, rest)" by simp
    from True have "quote_units (c # d # r) @ 34 # rest = c # d # quote_units r @ 34 # rest" by simp
    then show ?thesis using IH by (simp only: scan_raw[OF c] scan_raw[OF d]) simp
  next
    case False
    with 3 have IH: "scan_chars (quote_units (d # r) @ 34 # rest) = Some (d # r, rest)" by simp
    from False have "quote_units (c # d # r) @ 34 # rest
       = quote_unit c @ (quote_units (d # r) @ 34 # rest)" by auto
    then show ?thesis using IH by (simp only: scan_quote_unit) simp
  qed
qed

lemma scan_quote: "quote s @ rest = 34 # quote_units s @ 34 # rest"
  by (simp add: quote_def)

subsection \<open>Numbers\<close>

lemma follows_no_digit: "follows rest \<Longrightarrow> takeWhile is_digit rest = [] \<and> dropWhile is_digit rest = rest"
  by (cases rest) (auto simp: follows_def is_digit_def)

lemma digits_append:
  "follows rest \<Longrightarrow> takeWhile is_digit (r @ rest) = takeWhile is_digit r
     \<and> dropWhile is_digit (r @ rest) = dropWhile is_digit r @ rest"
  by (induction r) (simp_all add: follows_no_digit)

lemma scan_int_append:
  "scan_int s = Some (ip, s2) \<Longrightarrow> follows rest \<Longrightarrow> scan_int (s @ rest) = Some (ip, s2 @ rest)"
  by (cases s) (auto simp: scan_int_def digits_append split: if_splits)

lemma scan_frac_append:
  "scan_frac s = Some (fp, s3) \<Longrightarrow> follows rest \<Longrightarrow> scan_frac (s @ rest) = Some (fp, s3 @ rest)"
proof (cases s)
  case Nil
  assume "scan_frac s = Some (fp, s3)" "follows rest"
  with Nil show ?thesis by (cases rest) (auto simp: scan_frac_def follows_def)
next
  case (Cons c r)
  assume "scan_frac s = Some (fp, s3)" "follows rest"
  with Cons show ?thesis by (auto simp: scan_frac_def digits_append split: if_splits)
qed

lemma scan_exp_append:
  "scan_exp s = Some (ep, s4) \<Longrightarrow> follows rest \<Longrightarrow> scan_exp (s @ rest) = Some (ep, s4 @ rest)"
proof (cases s)
  case Nil
  assume "scan_exp s = Some (ep, s4)" "follows rest"
  with Nil show ?thesis by (cases rest) (auto simp: scan_exp_def follows_def)
next
  case (Cons c r)
  assume a: "scan_exp s = Some (ep, s4)" and f: "follows rest"
  show ?thesis
  proof (cases "c = 101 \<or> c = 69")
    case False
    with a Cons show ?thesis by (auto simp: scan_exp_def)
  next
    case True
    show ?thesis
    proof (cases r)
      case Nil
      with a Cons True show ?thesis by (auto simp: scan_exp_def)
    next
      case (Cons d r')
      with a \<open>s = c # r\<close> True f show ?thesis
        by (auto simp: scan_exp_def digits_append split: if_splits)
    qed
  qed
qed

lemma scan_number_append:
  assumes "scan_number s = Some (u, s4)" and "follows rest"
  shows "scan_number (s @ rest) = Some (u, s4 @ rest)"
proof -
  obtain sg s1 where sg: "(case s of [] \<Rightarrow> ([], s) | c # r \<Rightarrow> if c = 45 then ([c], r) else ([], s)) = (sg, s1)"
    by (cases "(case s of [] \<Rightarrow> ([], s) | c # r \<Rightarrow> if c = 45 then ([c], r) else ([], s))") auto
  from assms(1) sg obtain ip s2 fp s3 ep where
    i: "scan_int s1 = Some (ip, s2)" and f: "scan_frac s2 = Some (fp, s3)"
    and e: "scan_exp s3 = Some (ep, s4)" and u: "u = sg @ ip @ fp @ ep"
    by (auto simp: scan_number_def split: option.splits)
  from i have "s1 \<noteq> []" by (auto simp: scan_int_def)
  with sg have sg': "(case s @ rest of [] \<Rightarrow> ([], s @ rest) | c # r \<Rightarrow> if c = 45 then ([c], r) else ([], s @ rest))
      = (sg, s1 @ rest)"
    by (cases s) (auto split: if_splits)
  show ?thesis
    unfolding scan_number_def sg'
    using scan_int_append[OF i assms(2)] scan_frac_append[OF f assms(2)]
      scan_exp_append[OF e assms(2)] u
    by simp
qed

lemma number_literal_append:
  "number_literal t \<Longrightarrow> follows rest \<Longrightarrow> scan_number (t @ rest) = Some (t, rest)"
  using scan_number_append[of t t "[]" rest] by (simp add: number_literal_def)

lemma number_literal_head:
  "number_literal t \<Longrightarrow> \<exists>c r. t = c # r \<and> (c = 45 \<or> is_digit c)"
proof (cases t)
  case Nil
  assume "number_literal t"
  with Nil show ?thesis by (simp add: number_literal_def scan_number_def scan_int_def)
next
  case (Cons c r)
  assume n: "number_literal t"
  show ?thesis
  proof (cases "c = 45")
    case True
    with Cons show ?thesis by simp
  next
    case False
    with n Cons have "scan_int (c # r) \<noteq> None"
      by (auto simp: number_literal_def scan_number_def split: option.splits)
    then have "is_digit c" by (auto simp: scan_int_def is_digit_def split: if_splits)
    with Cons show ?thesis by simp
  qed
qed

subsection \<open>Values\<close>

lemma skip_ws_head: "\<not> is_ws c \<Longrightarrow> skip_ws (c # r) = c # r"
  by (simp add: skip_ws_def)

lemma scan_word_append: "scan_word w (w @ rest) = Some rest"
  by (simp add: scan_word_def)

lemma units_simps:
  "units ''null'' = [110, 117, 108, 108]"
  "units ''true'' = [116, 114, 117, 101]"
  "units ''false'' = [102, 97, 108, 115, 101]"
  by (simp_all add: units_def)

lemma stringify_head:
  "plain_data v \<Longrightarrow> \<exists>c r. JSON_stringify v = c # r \<and> starts_value c"
proof (cases v)
  case (JNum t)
  assume "plain_data v"
  with JNum number_literal_head[of t] show ?thesis by (auto simp: starts_value_def)
qed (auto simp: starts_value_def units_simps quote_def)

lemma starts_value_not: "starts_value c \<Longrightarrow> \<not> is_ws c \<and> c \<noteq> 93 \<and> c \<noteq> 125 \<and> c \<noteq> 44"
  by (auto simp: starts_value_def is_ws_def is_digit_def)

lemma follows_simps [simp]: "follows []" "follows (44 # r)" "follows (93 # r)" "follows (125 # r)"
  by (simp_all add: follows_def)

lemma follows_skip: "follows rest \<Longrightarrow> skip_ws rest = rest"
  by (cases rest) (auto simp: follows_def skip_ws_def is_ws_def)

lemma foldl_obj_put:
  "distinct (map fst (acc @ kvs)) \<Longrightarrow> foldl obj_put acc kvs = acc @ kvs"
proof (induction kvs arbitrary: acc)
  case Nil
  show ?case by simp
next
  case (Cons kv kvs)
  from Cons.prems have "fst kv \<notin> fst ` set acc" by auto
  then have "obj_put acc kv = acc @ [kv]" by (simp add: obj_put_def)
  moreover from Cons.prems have "distinct (map fst ((acc @ [kv]) @ kvs))" by simp
  ultimately show ?case using Cons.IH[of "acc @ [kv]"] by simp
qed

lemma obj_of_distinct: "distinct (map fst kvs) \<Longrightarrow> obj_of kvs = JObj kvs"
  using foldl_obj_put[of "[]" kvs] by (simp add: obj_of_def)

lemma rtD: "rt v \<Longrightarrow> follows rest \<Longrightarrow> length (JSON_stringify v) < n \<Longrightarrow>
       parse_value n (JSON_stringify v @ rest) = Some (v, rest)"
  by (simp add: rt_def)

lemma pv_object: "parse_value (Suc n) (123 # r) =
     (case skip_ws r of [] \<Rightarrow> None
      | d # r' \<Rightarrow> if d = 125 then Some (JObj [], r')
                  else map_option (\<lambda>(kvs, t). (obj_of kvs, t)) (parse_members n (d # r')))"
  by simp

lemma pv_array: "parse_value (Suc n) (91 # r) =
     (case skip_ws r of [] \<Rightarrow> None
      | d # r' \<Rightarrow> if d = 93 then Some (JArr [], r')
                  else map_option (\<lambda>(vs, t). (JArr vs, t)) (parse_elements n (d # r')))"
  by simp

lemma pv_string: "parse_value (Suc n) (34 # r) = map_option (\<lambda>(str, t). (JStr str, t)) (scan_chars r)"
  by simp

lemma pv_true: "parse_value (Suc n) (116 # r) = map_option (\<lambda>t. (JBool True, t)) (scan_word (units ''true'') (116 # r))"
  by simp

lemma pv_false: "parse_value (Suc n) (102 # r) = map_option (\<lambda>t. (JBool False, t)) (scan_word (units ''false'') (102 # r))"
  by simp

lemma pv_null: "parse_value (Suc n) (110 # r) = map_option (\<lambda>t. (JNull, t)) (scan_word (units ''null'') (110 # r))"
  by simp

lemma pv_number: "c = 45 \<or> is_digit c \<Longrightarrow>
   parse_value (Suc n) (c # r) = map_option (\<lambda>(num, t). (JNum num, t)) (scan_number (c # r))"
  by (auto simp: is_digit_def)

lemma pe_step: "parse_elements (Suc n) s =
     (case parse_value n s of None \<Rightarrow> None
      | Some (v, t) \<Rightarrow>
          (case skip_ws t of [] \<Rightarrow> None
           | d # t' \<Rightarrow> if d = 93 then Some ([v], t')
               else if d = 44 then map_option (\<lambda>(vs, u). (v # vs, u)) (parse_elements n (skip_ws t'))
               else None))"
  by simp

lemma commas_head:
  assumes "vs \<noteq> []" "\<forall>v \<in> set vs. plain_data v"
  shows "\<exists>c r. commas (map JSON_stringify vs) = c # r \<and> starts_value c"
proof -
  from assms obtain v tl where vs: "vs = v # tl" by (cases vs) auto
  with assms stringify_head[of v] obtain c r where h: "JSON_stringify v = c # r" "starts_value c"
    by auto
  with vs show ?thesis by (cases tl) auto
qed

lemma parse_elements_rt:
  assumes "\<forall>v \<in> set vs. plain_data v \<and> rt v"
  shows "vs \<noteq> [] \<Longrightarrow> length (commas (map JSON_stringify vs)) + 1 < n \<Longrightarrow>
     parse_elements n (commas (map JSON_stringify vs) @ 93 # rest) = Some (vs, rest)"
  using assms
proof (induction vs arbitrary: n)
  case Nil
  then show ?case by simp
next
  case (Cons v tl)
  from Cons.prems(2) obtain n' where n: "n = Suc n'" by (cases n) auto
  from Cons.prems(3) have v: "plain_data v" "rt v" by auto
  show ?case
  proof (cases tl)
    case Nil
    with Cons.prems(2) n have len: "length (JSON_stringify v) < n'" by simp
    have "parse_value n' (JSON_stringify v @ 93 # rest) = Some (v, 93 # rest)"
      by (rule rtD[OF v(2) _ len]) simp
    with Nil n show ?thesis
      by (simp only: pe_step) (simp add: follows_skip)
  next
    case (Cons w ws)
    let ?tail = "commas (map JSON_stringify tl) @ 93 # rest"
    have eq: "commas (map JSON_stringify (v # tl)) @ 93 # rest = JSON_stringify v @ 44 # ?tail"
      using Cons by simp
    from Cons.prems(2) Cons n have len: "length (JSON_stringify v) < n'"
      and len': "length (commas (map JSON_stringify tl)) + 1 < n'" by simp_all
    have pv: "parse_value n' (JSON_stringify v @ 44 # ?tail) = Some (v, 44 # ?tail)"
      by (rule rtD[OF v(2) _ len]) simp
    from Cons Cons.prems(3) commas_head[of tl] obtain c r where
      h: "commas (map JSON_stringify tl) = c # r" "starts_value c" by auto
    then have skip: "skip_ws ?tail = ?tail"
      by (simp add: skip_ws_head starts_value_not)
    have "tl \<noteq> []" using Cons by simp
    then have IH: "parse_elements n' ?tail = Some (tl, rest)"
      using Cons.IH[OF _ len'] Cons.prems(3) by simp
    show ?thesis
      unfolding eq n
      by (simp only: pe_step pv) (simp add: follows_skip skip IH)
  qed
qed

lemma pm_step: "parse_members (Suc n) (34 # r) =
     (case scan_chars r of None \<Rightarrow> None
      | Some (k, t) \<Rightarrow>
          (case skip_ws t of [] \<Rightarrow> None
           | d # t1 \<Rightarrow>
               if d \<noteq> 58 then None
               else (case parse_value n (skip_ws t1) of None \<Rightarrow> None
                     | Some (v, t2) \<Rightarrow>
                         (case skip_ws t2 of [] \<Rightarrow> None
                          | e # t3 \<Rightarrow>
                              if e = 125 then Some ([(k, v)], t3)
                              else if e = 44 then
                                map_option (\<lambda>(kvs, u). ((k, v) # kvs, u)) (parse_members n (skip_ws t3))
                              else None))))"
  by simp

lemma member_text_eq: "(\<lambda>(k, v). quote k @ 58 # JSON_stringify v) = member_text"
  by (auto simp: member_text_def)

lemma member_text_split:
  "member_text (k, v) @ X = 34 # quote_units k @ 34 # 58 # JSON_stringify v @ X"
  by (simp add: member_text_def quote_def)

lemma member_text_len: "length (JSON_stringify v) < length (member_text (k, v))"
  by (simp add: member_text_def)

lemma members_head:
  assumes "kvs \<noteq> []"
  shows "\<exists>r. commas (map member_text kvs) = 34 # r"
proof -
  from assms obtain kv tl where "kvs = kv # tl" by (cases kvs) auto
  then show ?thesis by (cases tl) (auto simp: member_text_def quote_def)
qed

lemma skip_colon: "skip_ws (58 # r) = 58 # r"
  by (simp add: skip_ws_def is_ws_def)

lemma skip_quote: "skip_ws (34 # r) = 34 # r"
  by (simp add: skip_ws_def is_ws_def)

lemma skip_value: "plain_data v \<Longrightarrow> skip_ws (JSON_stringify v @ X) = JSON_stringify v @ X"
  using stringify_head[of v] by (auto simp: skip_ws_head starts_value_not)

lemma parse_member_one:
  assumes v: "plain_data v" "rt v" and len: "length (JSON_stringify v) < n" and X: "follows X"
  shows "parse_members (Suc n) (member_text (k, v) @ X) =
     (case X of [] \<Rightarrow> None
      | e # t3 \<Rightarrow> if e = 125 then Some ([(k, v)], t3)
                   else if e = 44 then
                     map_option (\<lambda>(kvs, u). ((k, v) # kvs, u)) (parse_members n (skip_ws t3))
                   else None)"
proof -
  have pv: "parse_value n (JSON_stringify v @ X) = Some (v, X)"
    by (rule rtD[OF v(2) X len])
  show ?thesis
    unfolding member_text_split
    by (simp only: pm_step scan_quote_units option.case prod.case skip_colon list.case
          skip_value[OF v(1)] pv follows_skip[OF X]) simp
qed

lemma parse_members_rt:
  assumes "\<forall>kv \<in> set kvs. plain_data (snd kv) \<and> rt (snd kv)"
  shows "kvs \<noteq> [] \<Longrightarrow> length (commas (map member_text kvs)) + 1 < n \<Longrightarrow>
     parse_members n (commas (map member_text kvs) @ 125 # rest) = Some (kvs, rest)"
  using assms
proof (induction kvs arbitrary: n)
  case Nil
  then show ?case by simp
next
  case (Cons kv tl)
  obtain k v where kv: "kv = (k, v)" by (cases kv)
  from Cons.prems(2) obtain n' where n: "n = Suc n'" by (cases n) auto
  from Cons.prems(3) kv have v: "plain_data v" "rt v" by auto
  show ?case
  proof (cases tl)
    case Nil
    with Cons.prems(2) n kv member_text_len[of v k] have len: "length (JSON_stringify v) < n'"
      by simp
    from Nil kv have eq: "commas (map member_text (kv # tl)) @ 125 # rest
        = member_text (k, v) @ 125 # rest" by simp
    show ?thesis
      unfolding eq n using parse_member_one[OF v len, of "125 # rest" k] Nil kv by simp
  next
    case (Cons w ws)
    let ?tail = "commas (map member_text tl) @ 125 # rest"
    have eq: "commas (map member_text (kv # tl)) @ 125 # rest = member_text (k, v) @ 44 # ?tail"
      using Cons kv by simp
    have ne: "tl \<noteq> []" using Cons by simp
    have "length (commas (map member_text (kv # tl)))
        = length (member_text (k, v)) + 1 + length (commas (map member_text tl))"
      using Cons kv by simp
    with Cons.prems(2) n member_text_len[of v k]
    have len: "length (JSON_stringify v) < n'"
      and len': "length (commas (map member_text tl)) + 1 < n'"
      by simp_all
    from members_head[OF ne] have skip: "skip_ws ?tail = ?tail"
      by (auto simp: skip_quote)
    have IH: "parse_members n' ?tail = Some (tl, rest)"
      using Cons.IH[OF ne len'] Cons.prems(3) by simp
    show ?thesis
      unfolding eq n using parse_member_one[OF v len, of "44 # ?tail" k] kv
      by (simp add: skip IH)
  qed
qed

lemma rt_null: "rt JNull"
  unfolding rt_def
proof (intro allI impI)
  fix n rest
  assume "length (JSON_stringify JNull) < n"
  then obtain n' where "n = Suc n'" by (cases n) auto
  then show "parse_value n (JSON_stringify JNull @ rest) = Some (JNull, rest)"
    using scan_word_append[of "units ''null''" rest]
    by (simp only: JSON_stringify.simps units_simps append_Cons append_Nil pv_null) simp
qed

lemma rt_bool: "rt (JBool b)"
  unfolding rt_def
proof (intro allI impI)
  fix n rest
  assume "length (JSON_stringify (JBool b)) < n"
  then obtain n' where n: "n = Suc n'" by (cases n) auto
  show "parse_value n (JSON_stringify (JBool b) @ rest) = Some (JBool b, rest)"
  proof (cases b)
    case True
    with n show ?thesis
      using scan_word_append[of "units ''true''" rest]
      by (simp only: JSON_stringify.simps units_simps append_Cons append_Nil pv_true if_True) simp
  next
    case False
    with n show ?thesis
      using scan_word_append[of "units ''false''" rest]
      by (simp only: JSON_stringify.simps units_simps append_Cons append_Nil pv_false if_False) simp
  qed
qed

lemma rt_num: "number_literal t \<Longrightarrow> rt (JNum t)"
  unfolding rt_def
proof (intro allI impI)
  fix n rest
  assume t: "number_literal t" and f: "follows rest" and "length (JSON_stringify (JNum t)) < n"
  then obtain n' where n: "n = Suc n'" by (cases n) auto
  from number_literal_head[OF t] obtain c r where h: "t = c # r" "c = 45 \<or> is_digit c" by auto
  have "parse_value (Suc n') (c # r @ rest)
      = map_option (\<lambda>(num, t). (JNum num, t)) (scan_number (c # r @ rest))"
    by (rule pv_number[OF h(2)])
  with number_literal_append[OF t f] h n
  show "parse_value n (JSON_stringify (JNum t) @ rest) = Some (JNum t, rest)" by simp
qed

lemma rt_str: "rt (JStr s)"
  unfolding rt_def
proof (intro allI impI)
  fix n rest
  assume "length (JSON_stringify (JStr s)) < n"
  then obtain n' where n: "n = Suc n'" by (cases n) auto
  have "JSON_stringify (JStr s) @ rest = 34 # quote_units s @ 34 # rest"
    by (simp add: quote_def)
  with n show "parse_value n (JSON_stringify (JStr s) @ rest) = Some (JStr s, rest)"
    by (simp only: pv_string scan_quote_units) simp
qed

lemma rt_arr:
  assumes "\<forall>v \<in> set vs. plain_data v \<and> rt v"
  shows "rt (JArr vs)"
  unfolding rt_def
proof (intro allI impI)
  fix n rest
  assume len: "length (JSON_stringify (JArr vs)) < n"
  then obtain n' where n: "n = Suc n'" by (cases n) auto
  let ?body = "commas (map JSON_stringify vs)"
  have eq: "JSON_stringify (JArr vs) @ rest = 91 # ?body @ 93 # rest" by simp
  show "parse_value n (JSON_stringify (JArr vs) @ rest) = Some (JArr vs, rest)"
  proof (cases "vs = []")
    case True
    then show ?thesis unfolding eq n by (simp only: pv_array) (simp add: follows_skip)
  next
    case False
    from commas_head[OF False] assms obtain c r where
      h: "?body = c # r" "starts_value c" by auto
    then have skip: "skip_ws (?body @ 93 # rest) = c # (r @ 93 # rest)" and c: "c \<noteq> 93"
      by (simp_all add: skip_ws_head starts_value_not)
    from len n have "length ?body + 1 < n'" by simp
    from parse_elements_rt[OF assms False this, of rest] h
    have "parse_elements n' (c # (r @ 93 # rest)) = Some (vs, rest)" by simp
    then show ?thesis unfolding eq n using c by (simp only: pv_array skip) simp
  qed
qed

lemma rt_obj:
  assumes "\<forall>kv \<in> set kvs. plain_data (snd kv) \<and> rt (snd kv)" and d: "distinct (map fst kvs)"
  shows "rt (JObj kvs)"
  unfolding rt_def
proof (intro allI impI)
  fix n rest
  assume len: "length (JSON_stringify (JObj kvs)) < n"
  then obtain n' where n: "n = Suc n'" by (cases n) auto
  let ?body = "commas (map member_text kvs)"
  have eq: "JSON_stringify (JObj kvs) @ rest = 123 # ?body @ 125 # rest"
    by (simp add: member_text_eq)
  show "parse_value n (JSON_stringify (JObj kvs) @ rest) = Some (JObj kvs, rest)"
  proof (cases "kvs = []")
    case True
    then show ?thesis unfolding eq n by (simp only: pv_object) (simp add: follows_skip)
  next
    case False
    from members_head[OF False] obtain r where h: "?body = 34 # r" by auto
    then have skip: "skip_ws (?body @ 125 # rest) = 34 # (r @ 125 # rest)"
      by (simp add: skip_quote)
    from len n have "length ?body + 1 < n'" by (simp add: member_text_eq)
    from parse_members_rt[OF assms(1) False this, of rest] h
    have "parse_members n' (34 # (r @ 125 # rest)) = Some (kvs, rest)" by simp
    then show ?thesis unfolding eq n
      by (simp only: pv_object skip) (simp add: obj_of_distinct[OF d])
  qed
qed

lemma plain_data_rt: "plain_data v \<Longrightarrow> rt v"
proof (induction v)
  case JNull
  show ?case by (rule rt_null)
next
  case (JBool b)
  show ?case by (rule rt_bool)
next
  case (JNum t)
  then show ?case by (simp add: rt_num)
next
  case (JStr s)
  show ?case by (rule rt_str)
next
  case (JArr vs)
  then show ?case by (intro rt_arr) auto
next
  case (JObj kvs)
  have "\<forall>kv \<in> set kvs. plain_data (snd kv) \<and> rt (snd kv)"
  proof
    fix kv assume m: "kv \<in> set kvs"
    with JObj.prems have p: "plain_data (snd kv)" by simp
    have "snd kv \<in> Basic_BNFs.snds kv" by (cases kv) simp
    from JObj.IH[OF m this p] p show "plain_data (snd kv) \<and> rt (snd kv)" by simp
  qed
  with JObj.prems show ?case by (intro rt_obj) auto
qed

lemma JSON_parse_stringify: "plain_data v \<Longrightarrow> JSON_parse (JSON_stringify v) = Some v"
proof -
  assume p: "plain_data v"
  have "parse_value (Suc (length (JSON_stringify v))) (JSON_stringify v @ []) = Some (v, [])"
    by (rule rtD[OF plain_data_rt[OF p]]) simp_all
  with skip_value[OF p, of "[]"] show ?thesis
    by (simp add: JSON_parse_def follows_skip)
qed

subsection \<open>The bound on the calls does not matter\<close>

lemma skip_ws_length: "length (skip_ws s) \<le> length s"
  by (simp add: skip_ws_def length_dropWhile_le)

lemma skip_ws_Cons: "skip_ws t = d # t' \<Longrightarrow> length t' < length t"
  using skip_ws_length[of t] by simp

lemma scan_chars_length: "scan_chars r = Some (str, t) \<Longrightarrow> length t < length r"
proof (induction r arbitrary: str rule: scan_chars.induct)
  case 1
  then show ?case by simp
next
  case (2 c r)
  then show ?case
    by (fastforce split: if_splits list.splits option.splits)
qed

lemma scan_word_length: "w \<noteq> [] \<Longrightarrow> scan_word w s = Some t \<Longrightarrow> length t < length s"
  by (cases s) (auto simp: scan_word_def split: if_splits)

lemma scan_int_length: "scan_int s = Some (ip, s2) \<Longrightarrow> length s2 < length s"
  by (cases s) (auto simp: scan_int_def length_dropWhile_le less_Suc_eq_le split: if_splits)

lemma scan_frac_length: "scan_frac s = Some (fp, s3) \<Longrightarrow> length s3 \<le> length s"
  by (cases s) (auto simp: scan_frac_def length_dropWhile_le le_SucI split: if_splits)

lemma scan_exp_length: "scan_exp s = Some (ep, s4) \<Longrightarrow> length s4 \<le> length s"
proof (cases s)
  case Nil
  assume "scan_exp s = Some (ep, s4)"
  with Nil show ?thesis by (simp add: scan_exp_def)
next
  case (Cons c r)
  assume a: "scan_exp s = Some (ep, s4)"
  show ?thesis
  proof (cases "c = 101 \<or> c = 69")
    case False
    with a Cons show ?thesis by (auto simp: scan_exp_def)
  next
    case True
    obtain sg r1 where sg: "(case r of [] \<Rightarrow> ([], r)
          | d # r' \<Rightarrow> if d = 43 \<or> d = 45 then ([d], r') else ([], r)) = (sg, r1)"
      by (cases "(case r of [] \<Rightarrow> ([], r)
          | d # r' \<Rightarrow> if d = 43 \<or> d = 45 then ([d], r') else ([], r))") auto
    then have "length r1 \<le> length r" by (cases r) (auto split: if_splits)
    moreover from a Cons True sg have "s4 = dropWhile is_digit r1"
      by (auto simp: scan_exp_def split: if_splits)
    moreover have "length (dropWhile is_digit r1) \<le> length r1" by (rule length_dropWhile_le)
    ultimately show ?thesis using Cons by simp
  qed
qed

lemma scan_number_length:
  assumes "scan_number s = Some (u, t)"
  shows "length t < length s"
proof -
  obtain sg s1 where sg: "(case s of [] \<Rightarrow> ([], s) | c # r \<Rightarrow> if c = 45 then ([c], r) else ([], s)) = (sg, s1)"
    by (cases "(case s of [] \<Rightarrow> ([], s) | c # r \<Rightarrow> if c = 45 then ([c], r) else ([], s))") auto
  then have l: "length s1 \<le> length s" by (cases s) (auto split: if_splits)
  from assms sg obtain ip s2 fp s3 ep where
    i: "scan_int s1 = Some (ip, s2)" and f: "scan_frac s2 = Some (fp, s3)"
    and e: "scan_exp s3 = Some (ep, t)"
    by (auto simp: scan_number_def split: option.splits)
  from scan_int_length[OF i] scan_frac_length[OF f] scan_exp_length[OF e] l
  show ?thesis by simp
qed

text \<open>Values that are neither objects nor arrays are read without a recursive call.\<close>

lemma pv_scalar:
  "c \<noteq> 123 \<Longrightarrow> c \<noteq> 91 \<Longrightarrow> parse_value (Suc n) (c # r) = parse_value (Suc m) (c # r)"
  by simp

lemma pv_scalar_length:
  assumes "c \<noteq> 123" "c \<noteq> 91" "parse_value (Suc n) (c # r) = Some (v, t)"
  shows "length t < length (c # r)"
proof -
  consider "c = 34" | "c = 116" | "c = 102" | "c = 110" | "c \<notin> {123, 91, 34, 116, 102, 110}"
    using assms(1,2) by blast
  then show ?thesis
  proof cases
    case 1
    with assms(3) obtain str where "scan_chars r = Some (str, t)" by auto
    from scan_chars_length[OF this] show ?thesis by simp
  next
    case 2
    with assms(3) have "scan_word (units ''true'') (c # r) = Some t" by auto
    then show ?thesis by (intro scan_word_length[of "units ''true''"]) (simp_all add: units_def)
  next
    case 3
    with assms(3) have "scan_word (units ''false'') (c # r) = Some t" by auto
    then show ?thesis by (intro scan_word_length[of "units ''false''"]) (simp_all add: units_def)
  next
    case 4
    with assms(3) have "scan_word (units ''null'') (c # r) = Some t" by auto
    then show ?thesis by (intro scan_word_length[of "units ''null''"]) (simp_all add: units_def)
  next
    case 5
    with assms(3) obtain num where "scan_number (c # r) = Some (num, t)" by auto
    from scan_number_length[OF this] show ?thesis .
  qed
qed

lemma pv_object_none: "skip_ws r = [] \<Longrightarrow> parse_value (Suc n) (123 # r) = None"
  by simp

lemma pv_object_empty: "skip_ws r = 125 # r' \<Longrightarrow> parse_value (Suc n) (123 # r) = Some (JObj [], r')"
  by simp

lemma pv_object_members: "skip_ws r = d # r' \<Longrightarrow> d \<noteq> 125 \<Longrightarrow>
    parse_value (Suc n) (123 # r) = map_option (\<lambda>(kvs, t). (obj_of kvs, t)) (parse_members n (d # r'))"
  by simp

lemma pv_array_none: "skip_ws r = [] \<Longrightarrow> parse_value (Suc n) (91 # r) = None"
  by simp

lemma pv_array_empty: "skip_ws r = 93 # r' \<Longrightarrow> parse_value (Suc n) (91 # r) = Some (JArr [], r')"
  by simp

lemma pv_array_elements: "skip_ws r = d # r' \<Longrightarrow> d \<noteq> 93 \<Longrightarrow>
    parse_value (Suc n) (91 # r) = map_option (\<lambda>(vs, t). (JArr vs, t)) (parse_elements n (d # r'))"
  by simp

lemma enough_v_step:
  assumes E: "enough_e n" and M: "enough_m n"
  shows "enough_v (Suc n)"
  unfolding enough_v_def
proof (intro allI impI)
  fix s v t
  assume pv: "parse_value (Suc n) s = Some (v, t)"
  then obtain c r where s: "s = c # r" by (cases s) auto
  show "length t < length s \<and> (\<forall>m. length s \<le> m + length t \<longrightarrow> parse_value m s = Some (v, t))"
  proof (cases "c = 123 \<or> c = 91")
    case False
    then have c: "c \<noteq> 123" "c \<noteq> 91" by auto
    from pv s have len: "length t < length s" using pv_scalar_length[OF c] by simp
    have "parse_value m s = Some (v, t)" if "length s \<le> m + length t" for m
    proof -
      from that len obtain m' where "m = Suc m'" by (cases m) auto
      with pv s pv_scalar[OF c, of n r m'] show ?thesis by simp
    qed
    with len show ?thesis by simp
  next
    case True
    from pv s True obtain d r' where sk: "skip_ws r = d # r'"
      by (cases "skip_ws r") (auto simp del: parse_value.simps simp add: pv_object_none pv_array_none)
    from skip_ws_length[of r] sk have lr: "Suc (length r') \<le> length r" by simp
    show ?thesis
    proof (cases "(c = 123 \<and> d = 125) \<or> (c = 91 \<and> d = 93)")
      case True
      with pv s sk have t: "t = r'"
        by (auto simp del: parse_value.simps simp add: pv_object_empty pv_array_empty)
      with lr s have len: "length t < length s" by simp
      have "parse_value m s = Some (v, t)" if "length s \<le> m + length t" for m
      proof -
        from that len obtain m' where "m = Suc m'" by (cases m) auto
        with pv s sk True show ?thesis
          by (auto simp del: parse_value.simps simp add: pv_object_empty pv_array_empty)
      qed
      with len show ?thesis by simp
    next
      case False
      show ?thesis
      proof (cases "c = 123")
        case True
        with False have d: "d \<noteq> 125" by simp
        from pv s True obtain kvs where pm: "parse_members n (d # r') = Some (kvs, t)"
          and v: "v = obj_of kvs"
          by (auto simp del: parse_value.simps simp add: pv_object_members[OF sk d])
        from M pm have l: "length t < length (d # r')"
          and f: "\<And>m. length (d # r') \<le> m + length t \<Longrightarrow> parse_members m (d # r') = Some (kvs, t)"
          unfolding enough_m_def by blast+
        from l lr s have len: "length t < length s" by simp
        have "parse_value m s = Some (v, t)" if "length s \<le> m + length t" for m
        proof -
          from that len obtain m' where m: "m = Suc m'" by (cases m) auto
          with that s lr have "length (d # r') \<le> m' + length t" by simp
          from f[OF this] m s True v show ?thesis
            by (simp del: parse_value.simps add: pv_object_members[OF sk d])
        qed
        with len show ?thesis by simp
      next
        case c: False
        with \<open>c = 123 \<or> c = 91\<close> have c91: "c = 91" by simp
        with False have d: "d \<noteq> 93" by simp
        from pv s c91 obtain vs where pe: "parse_elements n (d # r') = Some (vs, t)"
          and v: "v = JArr vs"
          by (auto simp del: parse_value.simps simp add: pv_array_elements[OF sk d])
        from E pe have l: "length t < length (d # r')"
          and f: "\<And>m. length (d # r') \<le> m + length t \<Longrightarrow> parse_elements m (d # r') = Some (vs, t)"
          unfolding enough_e_def by blast+
        from l lr s have len: "length t < length s" by simp
        have "parse_value m s = Some (v, t)" if "length s \<le> m + length t" for m
        proof -
          from that len obtain m' where m: "m = Suc m'" by (cases m) auto
          with that s lr have "length (d # r') \<le> m' + length t" by simp
          from f[OF this] m s c91 v show ?thesis
            by (simp del: parse_value.simps add: pv_array_elements[OF sk d])
        qed
        with len show ?thesis by simp
      qed
    qed
  qed
qed

lemma pe_Some:
  "parse_elements (Suc n) s = Some (vs, t) \<Longrightarrow>
     \<exists>v t1 d t'. parse_value n s = Some (v, t1) \<and> skip_ws t1 = d # t'
       \<and> ((d = 93 \<and> vs = [v] \<and> t = t')
            \<or> (d = 44 \<and> (\<exists>vs'. parse_elements n (skip_ws t') = Some (vs', t) \<and> vs = v # vs')))"
  by (auto simp del: parse_value.simps split: option.splits list.splits if_splits)

lemma pe_last:
  "parse_value n s = Some (v, t1) \<Longrightarrow> skip_ws t1 = 93 # t' \<Longrightarrow>
     parse_elements (Suc n) s = Some ([v], t')"
  by simp

lemma pe_more:
  "parse_value n s = Some (v, t1) \<Longrightarrow> skip_ws t1 = 44 # t' \<Longrightarrow>
     parse_elements n (skip_ws t') = Some (vs', t) \<Longrightarrow>
     parse_elements (Suc n) s = Some (v # vs', t)"
  by simp

lemma pm_Some:
  "parse_members (Suc n) s = Some (kvs, t) \<Longrightarrow>
     \<exists>r k t0 t1 v t2 e t3. s = 34 # r \<and> scan_chars r = Some (k, t0) \<and> skip_ws t0 = 58 # t1
       \<and> parse_value n (skip_ws t1) = Some (v, t2) \<and> skip_ws t2 = e # t3
       \<and> ((e = 125 \<and> kvs = [(k, v)] \<and> t = t3)
            \<or> (e = 44 \<and> (\<exists>kvs'. parse_members n (skip_ws t3) = Some (kvs', t) \<and> kvs = (k, v) # kvs')))"
  by (cases s) (auto simp del: parse_value.simps split: option.splits list.splits if_splits)

lemma pm_last:
  "scan_chars r = Some (k, t0) \<Longrightarrow> skip_ws t0 = 58 # t1 \<Longrightarrow>
   parse_value n (skip_ws t1) = Some (v, t2) \<Longrightarrow> skip_ws t2 = 125 # t3 \<Longrightarrow>
     parse_members (Suc n) (34 # r) = Some ([(k, v)], t3)"
  by simp

lemma pm_more:
  "scan_chars r = Some (k, t0) \<Longrightarrow> skip_ws t0 = 58 # t1 \<Longrightarrow>
   parse_value n (skip_ws t1) = Some (v, t2) \<Longrightarrow> skip_ws t2 = 44 # t3 \<Longrightarrow>
   parse_members n (skip_ws t3) = Some (kvs', t) \<Longrightarrow>
     parse_members (Suc n) (34 # r) = Some ((k, v) # kvs', t)"
  by simp

lemma enough_e_step:
  assumes V: "enough_v n" and E: "enough_e n"
  shows "enough_e (Suc n)"
  unfolding enough_e_def
proof (intro allI impI)
  fix s vs t
  assume "parse_elements (Suc n) s = Some (vs, t)"
  from pe_Some[OF this] obtain v t1 d t' where pv: "parse_value n s = Some (v, t1)"
    and sk: "skip_ws t1 = d # t'"
    and alt: "(d = 93 \<and> vs = [v] \<and> t = t')
            \<or> (d = 44 \<and> (\<exists>vs'. parse_elements n (skip_ws t') = Some (vs', t) \<and> vs = v # vs'))"
    by blast
  from V pv have l1: "length t1 < length s"
    and f1: "\<And>m. length s \<le> m + length t1 \<Longrightarrow> parse_value m s = Some (v, t1)"
    unfolding enough_v_def by blast+
  from skip_ws_Cons[OF sk] have l2: "length t' < length t1" .
  from alt show "length t < length s
      \<and> (\<forall>m. length s \<le> m + length t \<longrightarrow> parse_elements m s = Some (vs, t))"
  proof
    assume a: "d = 93 \<and> vs = [v] \<and> t = t'"
    with l1 l2 have len: "length t < length s" by simp
    have "parse_elements m s = Some (vs, t)" if "length s \<le> m + length t" for m
    proof -
      from that len obtain m' where m: "m = Suc m'" by (cases m) auto
      with that a l2 have "length s \<le> m' + length t1" by simp
      from pe_last[OF f1[OF this]] sk a m show ?thesis by simp
    qed
    with len show ?thesis by simp
  next
    assume "d = 44 \<and> (\<exists>vs'. parse_elements n (skip_ws t') = Some (vs', t) \<and> vs = v # vs')"
    then obtain vs' where d: "d = 44" and pe: "parse_elements n (skip_ws t') = Some (vs', t)"
      and vs: "vs = v # vs'" by blast
    from E pe have l3: "length t < length (skip_ws t')"
      and f3: "\<And>m. length (skip_ws t') \<le> m + length t \<Longrightarrow> parse_elements m (skip_ws t') = Some (vs', t)"
      unfolding enough_e_def by blast+
    from l1 l2 l3 skip_ws_length[of t'] have len: "length t < length s" by simp
    have "parse_elements m s = Some (vs, t)" if "length s \<le> m + length t" for m
    proof -
      from that len obtain m' where m: "m = Suc m'" by (cases m) auto
      from that m l2 l3 skip_ws_length[of t'] have a: "length s \<le> m' + length t1" by simp
      from that m l1 l2 skip_ws_length[of t'] have b: "length (skip_ws t') \<le> m' + length t" by simp
      from pe_more[OF f1[OF a] _ f3[OF b]] sk d m vs show ?thesis by simp
    qed
    with len show ?thesis by simp
  qed
qed

lemma enough_m_step:
  assumes V: "enough_v n" and M: "enough_m n"
  shows "enough_m (Suc n)"
  unfolding enough_m_def
proof (intro allI impI)
  fix s kvs t
  assume "parse_members (Suc n) s = Some (kvs, t)"
  from pm_Some[OF this] obtain r k t0 t1 v t2 e t3 where s: "s = 34 # r"
    and sc: "scan_chars r = Some (k, t0)" and sk0: "skip_ws t0 = 58 # t1"
    and pv: "parse_value n (skip_ws t1) = Some (v, t2)" and sk2: "skip_ws t2 = e # t3"
    and alt: "(e = 125 \<and> kvs = [(k, v)] \<and> t = t3)
            \<or> (e = 44 \<and> (\<exists>kvs'. parse_members n (skip_ws t3) = Some (kvs', t) \<and> kvs = (k, v) # kvs'))"
    by blast
  from scan_chars_length[OF sc] have l0: "length t0 < length r" .
  from skip_ws_Cons[OF sk0] have l1: "length t1 < length t0" .
  from V pv have l2: "length t2 < length (skip_ws t1)"
    and f2: "\<And>m. length (skip_ws t1) \<le> m + length t2 \<Longrightarrow> parse_value m (skip_ws t1) = Some (v, t2)"
    unfolding enough_v_def by blast+
  from skip_ws_Cons[OF sk2] have l3: "length t3 < length t2" .
  note w1 = skip_ws_length[of t1]
  from alt show "length t < length s
      \<and> (\<forall>m. length s \<le> m + length t \<longrightarrow> parse_members m s = Some (kvs, t))"
  proof
    assume a: "e = 125 \<and> kvs = [(k, v)] \<and> t = t3"
    with s l0 l1 l2 l3 w1 have len: "length t < length s" by simp
    have "parse_members m s = Some (kvs, t)" if "length s \<le> m + length t" for m
    proof -
      from that len obtain m' where m: "m = Suc m'" by (cases m) auto
      with that a s l0 l1 l3 w1 have "length (skip_ws t1) \<le> m' + length t2" by simp
      from pm_last[OF sc sk0 f2[OF this]] sk2 a m s show ?thesis by simp
    qed
    with len show ?thesis by simp
  next
    assume "e = 44 \<and> (\<exists>kvs'. parse_members n (skip_ws t3) = Some (kvs', t) \<and> kvs = (k, v) # kvs')"
    then obtain kvs' where e: "e = 44" and pm: "parse_members n (skip_ws t3) = Some (kvs', t)"
      and kvs: "kvs = (k, v) # kvs'" by blast
    from M pm have l4: "length t < length (skip_ws t3)"
      and f4: "\<And>m. length (skip_ws t3) \<le> m + length t \<Longrightarrow> parse_members m (skip_ws t3) = Some (kvs', t)"
      unfolding enough_m_def by blast+
    note w3 = skip_ws_length[of t3]
    from s l0 l1 l2 l3 l4 w1 w3 have len: "length t < length s" by simp
    have "parse_members m s = Some (kvs, t)" if "length s \<le> m + length t" for m
    proof -
      from that len obtain m' where m: "m = Suc m'" by (cases m) auto
      from that m s l0 l1 l3 l4 w1 w3 have a: "length (skip_ws t1) \<le> m' + length t2" by simp
      from that m s l0 l1 l2 l3 w1 w3 have b: "length (skip_ws t3) \<le> m' + length t" by simp
      from pm_more[OF sc sk0 f2[OF a] _ f4[OF b]] sk2 e m s kvs show ?thesis by simp
    qed
    with len show ?thesis by simp
  qed
qed

lemma enough_all: "enough_v n \<and> enough_e n \<and> enough_m n"
proof (induction n)
  case 0
  show ?case by (simp add: enough_v_def enough_e_def enough_m_def)
next
  case (Suc n)
  then show ?case by (simp add: enough_v_step enough_e_step enough_m_step)
qed

text \<open>
  The bound of \<open>JSON_parse\<close> is never the reason for a failure: a text that the parser
  reads with some bound, it reads with the bound that \<open>JSON_parse\<close> gives it.
\<close>

lemma JSON_parse_bound_free:
  "JSON_parse s = Some v \<longleftrightarrow> (\<exists>n t. parse_value n (skip_ws s) = Some (v, t) \<and> skip_ws t = [])"
proof
  assume "JSON_parse s = Some v"
  then obtain t where "parse_value (Suc (length s)) (skip_ws s) = Some (v, t)" "skip_ws t = []"
    by (auto simp: JSON_parse_def simp del: parse_value.simps split: option.splits if_splits)
  then show "\<exists>n t. parse_value n (skip_ws s) = Some (v, t) \<and> skip_ws t = []"
    by blast
next
  assume "\<exists>n t. parse_value n (skip_ws s) = Some (v, t) \<and> skip_ws t = []"
  then obtain n t where pv: "parse_value n (skip_ws s) = Some (v, t)" and t: "skip_ws t = []"
    by blast
  from enough_all[of n] pv
  have f: "\<And>m. length (skip_ws s) \<le> m + length t \<Longrightarrow> parse_value m (skip_ws s) = Some (v, t)"
    unfolding enough_v_def by blast
  have "length (skip_ws s) \<le> Suc (length s) + length t"
    using skip_ws_length[of s] by simp
  from f[OF this] t show "JSON_parse s = Some v"
    by (simp add: JSON_parse_def del: parse_value.simps)
qed

section \<open>getJSON and fromJSON: claims\<close>

lemma getJSON_example:
  "getJSON (JArr [JNum (units ''1''), JNum (units ''2''), JNum (units ''3'')]) = units ''[1,2,3]''"
  by (simp add: getJSON_def units_def)

lemma JSON_parse_null: "JSON_parse (units ''null'') = Some JNull"
  by (simp add: JSON_parse_def units_def skip_ws_def is_ws_def scan_word_def)

lemma number_literal_10: "number_literal (units ''10'')"
  by (simp add: number_literal_def units_def scan_number_def scan_int_def scan_frac_def
        scan_exp_def is_digit_def)

text \<open>
  C2 (when fromJSON raises), as the code has it. \<^verbatim>\<open>fromJSON(T, s)\<close> raises an error if
  and only if \<open>s\<close> is not well-formed JSON, where \<^verbatim>\<open>JSON.parse\<close> throws a \<^verbatim>\<open>SyntaxError\<close>,
  or \<open>s\<close> is well-formed JSON for the value \<^verbatim>\<open>null\<close>, where \<^verbatim>\<open>Object.setPrototypeOf\<close>
  throws a \<^verbatim>\<open>TypeError\<close>. For every other well-formed text it returns the parsed value,
  whatever its fields are, and whether it raises does not depend on the template.
\<close>

theorem fromJSON_raises_iff:
  "(isl (fromJSON T s) \<longleftrightarrow> JSON_parse s = None \<or> JSON_parse s = Some JNull)
   \<and> (JSON_parse s = None \<longrightarrow> fromJSON T s = Inl SyntaxError)
   \<and> (JSON_parse s = Some JNull \<longrightarrow> fromJSON T s = Inl TypeError)
   \<and> (\<forall>v. JSON_parse s = Some v \<and> v \<noteq> JNull \<longrightarrow> (\<exists>p. fromJSON T s = Inr (v, p)))
   \<and> (isl (fromJSON T s) \<longleftrightarrow> isl (fromJSON T' s))"
proof -
  have "\<exists>p. Object_setPrototypeOf v T = Inr (v, p)" if "v \<noteq> JNull" for v
    using that by (cases v) auto
  moreover have "\<exists>p. Object_setPrototypeOf v T' = Inr (v, p)" if "v \<noteq> JNull" for v
    using that by (cases v) auto
  ultimately show ?thesis
    by (cases "JSON_parse s"; cases "the (JSON_parse s) = JNull")
       (fastforce simp: fromJSON_def)+
qed

theorem fromJSON_raises_iff_witness:
  "JSON_parse (units ''{\"radius\":10}'') = Some (JObj [(units ''radius'', JNum (units ''10''))])
   \<and> fromJSON ''Circle.prototype'' (units ''{\"radius\":10}'')
       = Inr (JObj [(units ''radius'', JNum (units ''10''))], Template ''Circle.prototype'')
   \<and> \<not> isl (fromJSON ''Circle.prototype'' (units ''{\"radius\":10}''))"
proof -
  have p: "JSON_parse (units ''{\"radius\":10}'') = Some (JObj [(units ''radius'', JNum (units ''10''))])"
    by code_simp
  from fromJSON_raises_iff[of "''Circle.prototype''" "units ''{\"radius\":10}''"
      "''Circle.prototype''", THEN conjunct1] p
  have "\<not> isl (fromJSON ''Circle.prototype'' (units ''{\"radius\":10}''))" by simp
  moreover have "fromJSON ''Circle.prototype'' (units ''{\"radius\":10}'')
       = Inr (JObj [(units ''radius'', JNum (units ''10''))], Template ''Circle.prototype'')"
    by (simp add: fromJSON_def p)
  ultimately show ?thesis using p by simp
qed

text \<open>
  The claim as the specification states it fails: the text \<^verbatim>\<open>null\<close> is well-formed JSON,
  and \<^verbatim>\<open>fromJSON\<close> raises on it.
\<close>

theorem fromJSON_raises_iff_counterexample:
  "JSON_parse (units ''null'') = Some JNull
   \<and> fromJSON ''Circle.prototype'' (units ''null'') = Inl TypeError"
  by (simp add: fromJSON_def JSON_parse_null)

text \<open>
  C3 (the round trip), as the code has it. For every plain data value \<open>x\<close> and every
  template \<open>T\<close>: when \<open>x\<close> is an object or an array, \<^verbatim>\<open>fromJSON(T, getJSON(x))\<close> succeeds
  and yields a value with the fields and values of \<open>x\<close> whose prototype is \<open>T\<close>; when
  \<open>x\<close> is \<^verbatim>\<open>null\<close> it raises a \<^verbatim>\<open>TypeError\<close>; when \<open>x\<close> is a boolean, a number or a string
  it yields \<open>x\<close> itself, whose prototype is the one it had.
\<close>

theorem round_trip:
  assumes "plain_data x"
  shows "fromJSON T (getJSON x) =
     (case x of
        JNull \<Rightarrow> Inl TypeError
      | JArr vs \<Rightarrow> Inr (x, Template T)
      | JObj kvs \<Rightarrow> Inr (x, Template T)
      | _ \<Rightarrow> Inr (x, Builtin))"
  using JSON_parse_stringify[OF assms]
  by (cases x) (simp_all add: fromJSON_def getJSON_def)

theorem round_trip_witness:
  "plain_data (JObj [(units ''radius'', JNum (units ''10''))])
   \<and> fromJSON ''Circle.prototype'' (getJSON (JObj [(units ''radius'', JNum (units ''10''))]))
       = Inr (JObj [(units ''radius'', JNum (units ''10''))], Template ''Circle.prototype'')"
proof -
  have p: "plain_data (JObj [(units ''radius'', JNum (units ''10''))])"
    by (simp add: number_literal_10)
  from round_trip[OF p, of "''Circle.prototype''"] p show ?thesis by simp
qed

text \<open>
  The claim as the specification states it fails for the plain data value \<^verbatim>\<open>null\<close>,
  where the round trip raises, and for the number \<^verbatim>\<open>10\<close>, where the result does not
  have the template as its prototype.
\<close>

theorem round_trip_counterexample:
  "plain_data JNull
   \<and> getJSON JNull = units ''null''
   \<and> fromJSON ''Circle.prototype'' (getJSON JNull) = Inl TypeError
   \<and> plain_data (JNum (units ''10''))
   \<and> fromJSON ''Circle.prototype'' (getJSON (JNum (units ''10''))) = Inr (JNum (units ''10''), Builtin)"
proof -
  have a: "fromJSON ''Circle.prototype'' (getJSON JNull) = Inl TypeError"
    by (simp add: getJSON_def fromJSON_def JSON_parse_null)
  have n: "plain_data (JNum (units ''10''))" by (simp add: number_literal_10)
  have "JSON_parse (JSON_stringify (JNum (units ''10''))) = Some (JNum (units ''10''))"
    by (rule JSON_parse_stringify[OF n])
  then have b: "fromJSON ''Circle.prototype'' (getJSON (JNum (units ''10'')))
      = Inr (JNum (units ''10''), Builtin)"
    by (simp add: getJSON_def fromJSON_def)
  from a b n show ?thesis by (simp add: getJSON_def)
qed

end
